theory Spec2Isabelle
  imports Complex_Main
begin

section \<open>Machine arithmetic of the Go program\<close>

text \<open>
  The program is modelled for the 64-bit targets of Go: \<open>int\<close> is a 64-bit two's
  complement integer whose addition and multiplication wrap around, \<open>/\<close> and \<open>%\<close>
  truncate toward zero, and \<open>float64\<close> is IEEE 754 binary64 with round to nearest,
  ties to even.
\<close>

definition int64_min :: int where
  "int64_min = - (2 ^ 63)"

definition int64_max :: int where
  "int64_max = 2 ^ 63 - 1"

definition wrap64 :: "int \<Rightarrow> int" where
  "wrap64 x = (x + 2 ^ 63) mod 2 ^ 64 - 2 ^ 63"

definition go_add :: "int \<Rightarrow> int \<Rightarrow> int" where
  "go_add a b = wrap64 (a + b)"

definition go_mul :: "int \<Rightarrow> int \<Rightarrow> int" where
  "go_mul a b = wrap64 (a * b)"

definition go_quo :: "int \<Rightarrow> int \<Rightarrow> int" where
  "go_quo a b = sgn a * sgn b * (\<bar>a\<bar> div \<bar>b\<bar>)"

definition go_rem :: "int \<Rightarrow> int \<Rightarrow> int" where
  "go_rem a b = a - b * go_quo a b"

subsection \<open>Binary64 values\<close>

text \<open>
  A finite \<open>float64\<close> is a dyadic rational \<open>mant * 2 ^ expo\<close>. The validator, the
  rounding engine and the memory bump compute with values that are 0 or lie between 0.9
  and \<open>2 ^ 77\<close>, so infinities, NaN, overflow and subnormal numbers do not occur
  there and are not modelled; rounding to the 53-bit significand is.
\<close>

datatype float64 = Dyadic (mant: int) (expo: int)

text \<open>The number of bits of a natural number: 0 for 0, and \<open>n\<close> for \<open>2 ^ (n - 1) \<le> m < 2 ^ n\<close>.\<close>

fun bitlen_nat :: "nat \<Rightarrow> nat" where
  "bitlen_nat n = (if n = 0 then 0 else bitlen_nat (n div 2) + 1)"

declare bitlen_nat.simps [simp del]

text \<open>
  Round to nearest, ties to even, keeping 53 significant bits: of a significand of
  \<open>n > 53\<close> bits the low \<open>k = n - 53\<close> bits \<open>r\<close> are dropped, and the
  quotient \<open>q\<close> is incremented when \<open>r\<close> is above half of \<open>2 ^ k\<close>, or equal to
  it with \<open>q\<close> odd.
\<close>

definition round_half_even :: "int \<Rightarrow> int \<Rightarrow> int \<Rightarrow> int" where
  "round_half_even q r h = (if h < r \<or> (r = h \<and> odd q) then q + 1 else q)"

definition round_shift :: "int \<Rightarrow> int \<Rightarrow> nat \<Rightarrow> float64" where
  "round_shift m e k =
     Dyadic (sgn m * round_half_even (\<bar>m\<bar> div 2 ^ k) (\<bar>m\<bar> mod 2 ^ k) (2 ^ (k - 1)))
       (e + int k)"

definition round_bits :: "int \<Rightarrow> int \<Rightarrow> nat \<Rightarrow> float64" where
  "round_bits m e n = (if n \<le> 53 then Dyadic m e else round_shift m e (n - 53))"

definition f64_round :: "float64 \<Rightarrow> float64" where
  "f64_round x = round_bits (mant x) (expo x) (bitlen_nat (nat \<bar>mant x\<bar>))"

definition f64_mul :: "float64 \<Rightarrow> float64 \<Rightarrow> float64" where
  "f64_mul x y = f64_round (Dyadic (mant x * mant y) (expo x + expo y))"

text \<open>The conversion \<open>float64(n)\<close> of an \<open>int\<close>.\<close>

definition f64_of_int :: "int \<Rightarrow> float64" where
  "f64_of_int n = f64_round (Dyadic n 0)"

text \<open>Comparison of the values, on a common exponent.\<close>

definition scaled_mant :: "float64 \<Rightarrow> int \<Rightarrow> int" where
  "scaled_mant x e = mant x * 2 ^ nat (expo x - e)"

definition f64_less :: "float64 \<Rightarrow> float64 \<Rightarrow> bool" where
  "f64_less x y \<longleftrightarrow>
     scaled_mant x (min (expo x) (expo y)) < scaled_mant y (min (expo x) (expo y))"

text \<open>The integer part of a \<open>float64\<close>, the fraction discarded.\<close>

definition f64_trunc :: "float64 \<Rightarrow> int" where
  "f64_trunc x =
     (if 0 \<le> expo x then mant x * 2 ^ nat (expo x)
      else sgn (mant x) * (\<bar>mant x\<bar> div 2 ^ nat (- expo x)))"

text \<open>
  The conversion \<open>int(x)\<close>. Go leaves the result open when the integer part does not
  fit the type; the amd64 instruction the compiler emits gives the least \<open>int64\<close> then.
\<close>

definition int64_of :: "int \<Rightarrow> int" where
  "int64_of t = (if int64_min \<le> t \<and> t \<le> int64_max then t else int64_min)"

definition go_int :: "float64 \<Rightarrow> int" where
  "go_int x = int64_of (f64_trunc x)"

text \<open>
  The constants of the source. \<open>6.5\<close>, \<open>1024\<close> and \<open>3840\<close> are exact;
  \<open>0.9\<close> is the nearest binary64 value, \<open>0x1.ccccccccccccdp-1\<close>.
\<close>

definition f64_0_9 :: float64 where
  "f64_0_9 = Dyadic 8106479329266893 (- 53)"

definition f64_6_5 :: float64 where
  "f64_6_5 = Dyadic 13 (- 1)"

definition f64_1024 :: float64 where
  "f64_1024 = Dyadic 1 10"

definition f64_3840 :: float64 where
  "f64_3840 = Dyadic 3840 0"

section \<open>Tier identifiers\<close>

datatype error =
    InvalidTierFormat
  | InvalidTierNumbers
  | EmptyMemoryString
  | InvalidMemoryFormat
  | InvalidUnit string

definition is_digit :: "char \<Rightarrow> bool" where
  "is_digit c \<longleftrightarrow> (48::nat) \<le> of_char c \<and> of_char c \<le> (57::nat)"

definition digit_val :: "char \<Rightarrow> int" where
  "digit_val c = int (of_char c) - 48"

definition digit_char :: "nat \<Rightarrow> char" where
  "digit_char d = char_of (48 + d)"

subsection \<open>The pattern \<open>db-custom-(\d+)-(\d+)\<close>\<close>

fun strip_prefix :: "string \<Rightarrow> string \<Rightarrow> string option" where
  "strip_prefix [] s = Some s"
| "strip_prefix (p # ps) [] = None"
| "strip_prefix (p # ps) (c # cs) = (if p = c then strip_prefix ps cs else None)"

text \<open>
  A match of the pattern that starts at the head of the text, as the list of the whole
  match and the two groups. \<open>\d+\<close> is greedy and a digit group is followed by a
  character that is not a digit (the \<open>-\<close>, or the end of the match), so the longest
  run of digits is the only choice of each group that the rest of the pattern accepts.
\<close>

definition tier_match_here :: "string \<Rightarrow> string list option" where
  "tier_match_here s =
     (case strip_prefix ''db-custom-'' s of
        None \<Rightarrow> None
      | Some r1 \<Rightarrow>
          if takeWhile is_digit r1 = [] then None
          else
            (case dropWhile is_digit r1 of
               [] \<Rightarrow> None
             | c # r2 \<Rightarrow>
                 if c \<noteq> CHR ''-'' \<or> takeWhile is_digit r2 = [] then None
                 else Some [''db-custom-'' @ takeWhile is_digit r1 @ ''-'' @ takeWhile is_digit r2,
                            takeWhile is_digit r1, takeWhile is_digit r2]))"

text \<open>
  \<open>FindStringSubmatch\<close> for this pattern: the leftmost match, tried at every
  position of the text in turn; the empty list (Go's \<open>nil\<close>) when there is none.
\<close>

fun FindStringSubmatch :: "string \<Rightarrow> string list" where
  "FindStringSubmatch [] = []"
| "FindStringSubmatch (c # cs) =
     (case tier_match_here (c # cs) of
        Some m \<Rightarrow> m
      | None \<Rightarrow> FindStringSubmatch cs)"

subsection \<open>\<open>strconv.Atoi\<close> and \<open>%d\<close>\<close>

definition digits_value :: "string \<Rightarrow> int" where
  "digits_value ds = foldl (\<lambda>a c. a * 10 + digit_val c) 0 ds"

definition signed_value :: "string \<Rightarrow> int" where
  "signed_value s =
     (case s of
        [] \<Rightarrow> 0
      | c # cs \<Rightarrow>
          if c = CHR ''-'' then - digits_value cs
          else if c = CHR ''+'' then digits_value cs
          else digits_value s)"

definition unsigned_part :: "string \<Rightarrow> string" where
  "unsigned_part s =
     (case s of
        [] \<Rightarrow> []
      | c # cs \<Rightarrow> if c = CHR ''-'' \<or> c = CHR ''+'' then cs else s)"

text \<open>\<open>None\<close> is Atoi's error: a syntax error, or a value out of the range of \<open>int\<close>.\<close>

definition Atoi :: "string \<Rightarrow> int option" where
  "Atoi s =
     (if unsigned_part s = [] \<or> \<not> list_all is_digit (unsigned_part s) then None
      else if signed_value s < int64_min \<or> int64_max < signed_value s then None
      else Some (signed_value s))"

fun digits_of :: "nat \<Rightarrow> string" where
  "digits_of n =
     (if n < 10 then [digit_char n] else digits_of (n div 10) @ [digit_char (n mod 10)])"

declare digits_of.simps [simp del]

definition Itoa :: "int \<Rightarrow> string" where
  "Itoa n = (if n < 0 then CHR ''-'' # digits_of (nat (- n)) else digits_of (nat n))"

text \<open>\<open>fmt.Sprintf("db-custom-%d-%d", c, r)\<close>\<close>

definition formatTier :: "int \<Rightarrow> int \<Rightarrow> string" where
  "formatTier c r = ''db-custom-'' @ Itoa c @ ''-'' @ Itoa r"

text \<open>
  An occurrence of a tier identifier at the head of a text, in words: the text begins
  with \<open>db-custom-\<close>, the digits \<open>d1\<close>, \<open>-\<close> and the digits \<open>d2\<close>.
\<close>

definition tier_occurrence :: "string \<Rightarrow> string \<Rightarrow> string \<Rightarrow> bool" where
  "tier_occurrence t d1 d2 \<longleftrightarrow>
     d1 \<noteq> [] \<and> d2 \<noteq> [] \<and> list_all is_digit d1 \<and> list_all is_digit d2 \<and>
     (\<exists>q. t = ''db-custom-'' @ d1 @ ''-'' @ d2 @ q)"

definition parseTier :: "string \<Rightarrow> error + (int \<times> int)" where
  "parseTier tier =
     (let matches = FindStringSubmatch tier in
      if length matches \<noteq> 3 then Inl InvalidTierFormat
      else
        (case (Atoi (matches ! 1), Atoi (matches ! 2)) of
           (Some cpu, Some ram) \<Rightarrow> Inr (cpu, ram)
         | _ \<Rightarrow> Inl InvalidTierNumbers))"

section \<open>Memory quantities\<close>

text \<open>
  \<open>fmt.Sscanf(memStr, "%f%s", &value, &unit)\<close>, on ASCII text. The scanner skips
  blanks before each operand and stops with an error at a newline; an operand that
  finds the text exhausted ends the scan with the error \<open>EOF\<close> and the count of the
  operands stored so far.
\<close>

datatype scan_error = UnexpectedNewline | EOF | BadNumber

definition isSpace :: "char \<Rightarrow> bool" where
  "isSpace c \<longleftrightarrow> c \<in> set [CHR 0x09, CHR 0x0A, CHR 0x0B, CHR 0x0C, CHR 0x0D, CHR 0x20]"

fun SkipSpace :: "string \<Rightarrow> scan_error + string" where
  "SkipSpace [] = Inr []"
| "SkipSpace (c # cs) =
     (if c = CHR 0x0D \<and> take 1 cs = [CHR 0x0A] then SkipSpace cs
      else if c = CHR 0x0A then Inl UnexpectedNewline
      else if isSpace c then SkipSpace cs
      else Inr (c # cs))"

text \<open>
  The token of \<open>%f\<close>. A scanner state is the pair of the token read so far and the
  text left; \<open>accept\<close> takes one character of the given set.
\<close>

type_synonym scan_state = "string \<times> string"

definition accept :: "string \<Rightarrow> scan_state \<Rightarrow> bool \<times> scan_state" where
  "accept ok s =
     (case snd s of
        [] \<Rightarrow> (False, s)
      | c # cs \<Rightarrow> if c \<in> set ok then (True, (fst s @ [c], cs)) else (False, s))"

definition accept_seq :: "string list \<Rightarrow> scan_state \<Rightarrow> bool \<times> scan_state" where
  "accept_seq oks s =
     foldl (\<lambda>st ok. if fst st then accept ok (snd st) else st) (True, s) oks"

definition accept_all :: "string \<Rightarrow> scan_state \<Rightarrow> scan_state" where
  "accept_all ok s =
     (fst s @ takeWhile (\<lambda>c. c \<in> set ok) (snd s), dropWhile (\<lambda>c. c \<in> set ok) (snd s))"

definition decimalDigits :: string where
  "decimalDigits = ''0123456789''"

definition hexadecimalDigits :: string where
  "hexadecimalDigits = ''0123456789aAbBcCdDeEfF''"

definition scan_exponent :: "string \<Rightarrow> scan_state \<Rightarrow> scan_state" where
  "scan_exponent ex s =
     (case accept ex s of
        (True, s1) \<Rightarrow> accept_all (decimalDigits @ ''_'') (snd (accept ''+-'' s1))
      | (False, s1) \<Rightarrow> s1)"

definition scan_number :: "string \<Rightarrow> string \<Rightarrow> scan_state \<Rightarrow> scan_state" where
  "scan_number digits ex s =
     scan_exponent ex
       (case accept ''.'' (accept_all digits s) of
          (True, s1) \<Rightarrow> accept_all digits s1
        | (False, s1) \<Rightarrow> s1)"

definition floatToken :: "string \<Rightarrow> scan_state" where
  "floatToken inp =
     (case accept_seq [''nN'', ''aA'', ''nN''] ([], inp) of
        (True, s) \<Rightarrow> s
      | (False, s0) \<Rightarrow>
          (case accept_seq [''iI'', ''nN'', ''fF''] (snd (accept ''+-'' s0)) of
             (True, s) \<Rightarrow> s
           | (False, s1) \<Rightarrow>
               (case accept_seq [''0'', ''xX''] s1 of
                  (True, s2) \<Rightarrow> scan_number (hexadecimalDigits @ ''_'') ''pP'' s2
                | (False, s2) \<Rightarrow> scan_number (decimalDigits @ ''_'') ''eEpP'' s2)))"

text \<open>
  The scan of both operands. \<open>convertFloat\<close> stands for the conversion of the token by
  \<open>strconv.ParseFloat\<close>, \<open>None\<close> its error. The result is the count of operands
  stored, the error, and the two operands, which keep their initial values 0 and the
  empty string where nothing is stored.
\<close>

definition scan_string :: "nat \<Rightarrow> float64 \<Rightarrow> string \<Rightarrow> nat \<times> scan_error option \<times> float64 \<times> string" where
  "scan_string n v inp =
     (case SkipSpace inp of
        Inl e \<Rightarrow> (n, Some e, v, [])
      | Inr [] \<Rightarrow> (n, Some EOF, v, [])
      | Inr (c # cs) \<Rightarrow> (Suc n, None, v, takeWhile (\<lambda>c. \<not> isSpace c) (c # cs)))"

definition Sscanf_f_s ::
    "(string \<Rightarrow> float64 option) \<Rightarrow> string \<Rightarrow> nat \<times> scan_error option \<times> float64 \<times> string" where
  "Sscanf_f_s convertFloat str =
     (case SkipSpace str of
        Inl e \<Rightarrow> (0, Some e, Dyadic 0 0, [])
      | Inr [] \<Rightarrow> (0, Some EOF, Dyadic 0 0, [])
      | Inr (c # cs) \<Rightarrow>
          (case convertFloat (fst (floatToken (c # cs))) of
             None \<Rightarrow> (0, Some BadNumber, Dyadic 0 0, [])
           | Some v \<Rightarrow> scan_string 1 v (snd (floatToken (c # cs)))))"

definition parseMem :: "(string \<Rightarrow> float64 option) \<Rightarrow> string \<Rightarrow> error + float64" where
  "parseMem convertFloat memStr =
     (if memStr = [] then Inl EmptyMemoryString
      else
        (case Sscanf_f_s convertFloat memStr of
           (n, err, val, unit) \<Rightarrow>
             if err \<noteq> None \<or> n < 1 then Inl InvalidMemoryFormat
             else if unit = ''G'' \<or> unit = ''g'' then Inr (f64_mul val f64_1024)
             else if unit = ''M'' \<or> unit = ''m'' \<or> unit = [] then Inr val
             else Inl (InvalidUnit unit)))"

section \<open>The constraint validator\<close>

definition validateTier :: "int \<Rightarrow> int \<Rightarrow> bool" where
  "validateTier cpu ram =
     (if cpu < 1 \<or> cpu > 96 then False
      else if cpu \<noteq> 1 \<and> go_rem cpu 2 \<noteq> 0 then False
      else if go_rem ram 256 \<noteq> 0 \<or> ram < 3840 then False
      else
        let minRam = go_int (f64_mul (f64_mul f64_0_9 (f64_of_int cpu)) f64_1024);
            maxRam = go_int (f64_mul (f64_mul f64_6_5 (f64_of_int cpu)) f64_1024)
        in ram \<ge> minRam \<and> ram \<le> maxRam)"

text \<open>
  Names for the two bounds \<open>int(0.9 * float64(cpu) * 1024)\<close> and
  \<open>int(6.5 * float64(cpu) * 1024)\<close>, which \<open>nearestValidTier\<close> computes too.
\<close>

definition minRam_of :: "int \<Rightarrow> int" where
  "minRam_of cpu = go_int (f64_mul (f64_mul f64_0_9 (f64_of_int cpu)) f64_1024)"

definition maxRam_of :: "int \<Rightarrow> int" where
  "maxRam_of cpu = go_int (f64_mul (f64_mul f64_6_5 (f64_of_int cpu)) f64_1024)"

text \<open>The validator as the specification words it, over exact rational arithmetic.\<close>

definition trunc_rat :: "rat \<Rightarrow> int" where
  "trunc_rat q = (if 0 \<le> q then \<lfloor>q\<rfloor> else \<lceil>q\<rceil>)"

definition spec_min_ram :: "int \<Rightarrow> int" where
  "spec_min_ram vcpu = trunc_rat (9 / 10 * of_int vcpu * 1024)"

definition spec_max_ram :: "int \<Rightarrow> int" where
  "spec_max_ram vcpu = trunc_rat (13 / 2 * of_int vcpu * 1024)"

definition spec_IsValid :: "int \<Rightarrow> int \<Rightarrow> bool" where
  "spec_IsValid vcpu memory_mb \<longleftrightarrow>
     1 \<le> vcpu \<and> vcpu \<le> 96 \<and> (vcpu = 1 \<or> even vcpu) \<and> memory_mb mod 256 = 0 \<and>
     3840 \<le> memory_mb \<and> spec_min_ram vcpu \<le> memory_mb \<and> memory_mb \<le> spec_max_ram vcpu"

section \<open>The table of known tiers\<close>

record known_tier =
  tier_cpu :: int
  tier_ram :: int

definition knownTiers :: "known_tier list" where
  "knownTiers =
     [\<lparr>tier_cpu = 1, tier_ram = 3840\<rparr>,
      \<lparr>tier_cpu = 2, tier_ram = 7680\<rparr>,
      \<lparr>tier_cpu = 2, tier_ram = 13312\<rparr>,
      \<lparr>tier_cpu = 4, tier_ram = 15360\<rparr>,
      \<lparr>tier_cpu = 4, tier_ram = 26624\<rparr>,
      \<lparr>tier_cpu = 6, tier_ram = 23040\<rparr>,
      \<lparr>tier_cpu = 6, tier_ram = 39936\<rparr>,
      \<lparr>tier_cpu = 8, tier_ram = 30720\<rparr>,
      \<lparr>tier_cpu = 8, tier_ram = 53248\<rparr>,
      \<lparr>tier_cpu = 10, tier_ram = 38400\<rparr>,
      \<lparr>tier_cpu = 10, tier_ram = 66560\<rparr>,
      \<lparr>tier_cpu = 12, tier_ram = 46080\<rparr>,
      \<lparr>tier_cpu = 12, tier_ram = 79872\<rparr>,
      \<lparr>tier_cpu = 16, tier_ram = 61440\<rparr>,
      \<lparr>tier_cpu = 16, tier_ram = 106496\<rparr>,
      \<lparr>tier_cpu = 24, tier_ram = 92160\<rparr>,
      \<lparr>tier_cpu = 24, tier_ram = 159744\<rparr>,
      \<lparr>tier_cpu = 32, tier_ram = 122880\<rparr>,
      \<lparr>tier_cpu = 32, tier_ram = 212992\<rparr>,
      \<lparr>tier_cpu = 48, tier_ram = 184320\<rparr>,
      \<lparr>tier_cpu = 48, tier_ram = 319488\<rparr>,
      \<lparr>tier_cpu = 64, tier_ram = 245760\<rparr>,
      \<lparr>tier_cpu = 64, tier_ram = 425984\<rparr>,
      \<lparr>tier_cpu = 80, tier_ram = 307200\<rparr>,
      \<lparr>tier_cpu = 80, tier_ram = 532480\<rparr>,
      \<lparr>tier_cpu = 96, tier_ram = 368640\<rparr>,
      \<lparr>tier_cpu = 96, tier_ram = 638976\<rparr>]"

text \<open>The two conditions of the searches, and the order of pairs they come from.\<close>

definition tier_above :: "int \<Rightarrow> int \<Rightarrow> known_tier \<Rightarrow> bool" where
  "tier_above cpu ram t \<longleftrightarrow> tier_cpu t > cpu \<or> (tier_cpu t = cpu \<and> tier_ram t > ram)"

definition tier_below :: "int \<Rightarrow> int \<Rightarrow> known_tier \<Rightarrow> bool" where
  "tier_below cpu ram t \<longleftrightarrow> tier_cpu t < cpu \<or> (tier_cpu t = cpu \<and> tier_ram t < ram)"

definition pair_less :: "int \<times> int \<Rightarrow> int \<times> int \<Rightarrow> bool" where
  "pair_less a b \<longleftrightarrow> fst a < fst b \<or> (fst a = fst b \<and> snd a < snd b)"

text \<open>The loop \<open>for _, t := range ts\<close> of \<open>findNextKnownTier\<close>.\<close>

fun next_from :: "int \<Rightarrow> int \<Rightarrow> known_tier list \<Rightarrow> int \<times> int \<times> bool" where
  "next_from cpu ram [] = (0, 0, False)"
| "next_from cpu ram (t # ts) =
     (if tier_cpu t > cpu \<or> (tier_cpu t = cpu \<and> tier_ram t > ram)
      then (tier_cpu t, tier_ram t, True)
      else next_from cpu ram ts)"

definition findNextKnownTier :: "int \<Rightarrow> int \<Rightarrow> int \<times> int \<times> bool" where
  "findNextKnownTier cpu ram = next_from cpu ram knownTiers"

text \<open>
  The loop \<open>for i := len(ts) - 1; i >= 0; i--\<close> of \<open>findPreviousKnownTier\<close>;
  \<open>prev_from cpu ram ts n\<close> is the loop with \<open>n\<close> indices left, at \<open>i = n - 1\<close>.
\<close>

fun prev_from :: "int \<Rightarrow> int \<Rightarrow> known_tier list \<Rightarrow> nat \<Rightarrow> int \<times> int \<times> bool" where
  "prev_from cpu ram ts 0 = (0, 0, False)"
| "prev_from cpu ram ts (Suc i) =
     (if tier_cpu (ts ! i) < cpu \<or> (tier_cpu (ts ! i) = cpu \<and> tier_ram (ts ! i) < ram)
      then (tier_cpu (ts ! i), tier_ram (ts ! i), True)
      else prev_from cpu ram ts i)"

definition findPreviousKnownTier :: "int \<Rightarrow> int \<Rightarrow> int \<times> int \<times> bool" where
  "findPreviousKnownTier cpu ram = prev_from cpu ram knownTiers (length knownTiers)"

section \<open>The rounding engine\<close>

definition nearestValidTier :: "int \<Rightarrow> int \<Rightarrow> int \<times> int" where
  "nearestValidTier cpu ram =
     (let cpu =
            (if cpu < 1 then 1
             else if cpu > 96 then 96
             else if cpu \<noteq> 1 \<and> go_rem cpu 2 \<noteq> 0 then go_add cpu 1
             else cpu);
          ram = go_mul (go_quo (go_add ram 255) 256) 256;
          ram = (if ram < 3840 then 3840 else ram);
          minRAM =
            go_mul
              (go_quo
                (go_add (go_int (f64_mul (f64_mul f64_0_9 (f64_of_int cpu)) f64_1024)) 255) 256)
              256;
          maxRAM =
            go_mul (go_quo (go_int (f64_mul (f64_mul f64_6_5 (f64_of_int cpu)) f64_1024)) 256) 256;
          ram = (if ram < minRAM then minRAM else ram);
          ram = (if ram > maxRAM then maxRAM else ram)
      in (cpu, ram))"

text \<open>Names for its steps.\<close>

definition fix_cpu :: "int \<Rightarrow> int" where
  "fix_cpu cpu =
     (if cpu < 1 then 1
      else if cpu > 96 then 96
      else if cpu \<noteq> 1 \<and> go_rem cpu 2 \<noteq> 0 then go_add cpu 1
      else cpu)"

definition round_up_256 :: "int \<Rightarrow> int" where
  "round_up_256 x = go_mul (go_quo (go_add x 255) 256) 256"

definition round_down_256 :: "int \<Rightarrow> int" where
  "round_down_256 x = go_mul (go_quo x 256) 256"

definition floor_ram :: "int \<Rightarrow> int" where
  "floor_ram ram = (if ram < 3840 then 3840 else ram)"

definition clamp_ram :: "int \<Rightarrow> int \<Rightarrow> int \<Rightarrow> int" where
  "clamp_ram minRAM maxRAM ram =
     (let ram = (if ram < minRAM then minRAM else ram)
      in if ram > maxRAM then maxRAM else ram)"

section \<open>Bumping the memory of a tier\<close>

datatype bump_relation = AlreadyMax | AlreadyExceedsMax | Bumped

text \<open>
  The branch of \<open>main\<close> for \<open>-bump-mem\<close>, from the parsed tier on: the vCPU
  count it keeps, the value of \<open>int(ramMB)\<close> that the three reports print, and
  which of the three is printed.
\<close>

definition bumpMemTier :: "int \<Rightarrow> int \<Rightarrow> int \<times> int \<times> bump_relation" where
  "bumpMemTier c r =
     (let ramMB = f64_mul (f64_mul (f64_of_int c) f64_6_5) f64_1024;
          ramMB = f64_of_int (go_mul (go_quo (go_int ramMB) 256) 256);
          ramMB = (if f64_less ramMB f64_3840 then f64_3840 else ramMB)
      in (c, go_int ramMB,
          if go_int ramMB = r then AlreadyMax
          else if go_int ramMB < r then AlreadyExceedsMax
          else Bumped))"

text \<open>Names for its steps.\<close>

definition floor_3840 :: "float64 \<Rightarrow> float64" where
  "floor_3840 ramMB = (if f64_less ramMB f64_3840 then f64_3840 else ramMB)"

definition bump_ramMB :: "int \<Rightarrow> float64" where
  "bump_ramMB c =
     floor_3840
       (f64_of_int (round_down_256 (go_int (f64_mul (f64_mul (f64_of_int c) f64_6_5) f64_1024))))"

definition bump_relation_of :: "int \<Rightarrow> int \<Rightarrow> bump_relation" where
  "bump_relation_of max_ram r =
     (if max_ram = r then AlreadyMax
      else if max_ram < r then AlreadyExceedsMax
      else Bumped)"

text \<open>
  The maximum as the specification words it: \<open>6.5 * c * 1024\<close> truncated to an
  integer, rounded down to a multiple of 256, and floored at 3840.
\<close>

definition spec_bump_max :: "int \<Rightarrow> int" where
  "spec_bump_max c = max 3840 (spec_max_ram c div 256 * 256)"

definition bumpMem :: "string \<Rightarrow> error + (int \<times> int \<times> bump_relation)" where
  "bumpMem s =
     (case parseTier s of
        Inl e \<Rightarrow> Inl e
      | Inr (c, r) \<Rightarrow> Inr (bumpMemTier c r))"

section \<open>Properties of the arithmetic\<close>

lemmas f64_eval = go_int_def int64_of_def f64_trunc_def f64_mul_def f64_round_def round_bits_def
  round_shift_def round_half_even_def f64_of_int_def f64_less_def scaled_mant_def
  f64_0_9_def f64_6_5_def f64_1024_def f64_3840_def bitlen_nat.simps int64_min_def int64_max_def

lemma bitlen_nat_le: "bitlen_nat n \<le> b \<longleftrightarrow> n < 2 ^ b"
proof (induction n arbitrary: b rule: bitlen_nat.induct)
  case (1 n)
  show ?case
  proof (cases "n = 0")
    case True
    then show ?thesis by (simp add: bitlen_nat.simps)
  next
    case False
    show ?thesis
    proof (cases b)
      case 0
      with False show ?thesis by (simp add: bitlen_nat.simps)
    next
      case (Suc b')
      have "bitlen_nat n \<le> b \<longleftrightarrow> bitlen_nat (n div 2) \<le> b'"
        using False Suc by (subst bitlen_nat.simps) simp
      also have "\<dots> \<longleftrightarrow> n div 2 < 2 ^ b'"
        using 1 [OF False] .
      also have "\<dots> \<longleftrightarrow> n < 2 ^ b"
        using Suc by auto
      finally show ?thesis .
    qed
  qed
qed

lemma f64_round_small: "\<bar>m\<bar> < 2 ^ 53 \<Longrightarrow> f64_round (Dyadic m e) = Dyadic m e"
proof -
  assume "\<bar>m\<bar> < 2 ^ 53"
  then have "nat \<bar>m\<bar> < 2 ^ 53"
    by (simp add: nat_less_iff)
  then have "bitlen_nat (nat \<bar>m\<bar>) \<le> 53"
    by (simp add: bitlen_nat_le)
  then show ?thesis
    by (simp add: f64_round_def round_bits_def)
qed

lemma f64_of_int_small: "\<bar>n\<bar> < 2 ^ 53 \<Longrightarrow> f64_of_int n = Dyadic n 0"
  by (simp add: f64_of_int_def f64_round_small)

lemma f64_mul_small:
  "\<bar>mant x * mant y\<bar> < 2 ^ 53 \<Longrightarrow> f64_mul x y = Dyadic (mant x * mant y) (expo x + expo y)"
  by (simp add: f64_mul_def f64_round_small)

lemma maxRam_of_exact:
  assumes "0 \<le> c" "13 * c < 2 ^ 53"
  shows "maxRam_of c = 6656 * c"
proof -
  have c: "\<bar>c\<bar> < 2 ^ 53" using assms by simp
  have m: "\<bar>13 * c\<bar> < 2 ^ 53" using assms by simp
  have "f64_mul (f64_mul f64_6_5 (f64_of_int c)) f64_1024 = Dyadic (13 * c) 9"
    using m by (simp add: f64_of_int_small [OF c] f64_mul_small f64_6_5_def f64_1024_def)
  moreover have "6656 * c \<le> int64_max" "int64_min \<le> 6656 * c"
    using assms by (simp_all add: int64_max_def int64_min_def)
  ultimately show ?thesis
    by (simp add: maxRam_of_def go_int_def int64_of_def f64_trunc_def)
qed

lemma minRam_of_1: "minRam_of 1 = 921"
  by (simp add: minRam_of_def f64_eval)

lemma minRam_table: "list_all (\<lambda>c. minRam_of c = 9216 * c div 10) [2..96]"
  apply simp
  apply (simp add: minRam_of_def f64_eval)
  done

lemma minRam_of_exact:
  assumes "1 \<le> c" "c \<le> 96"
  shows "minRam_of c = 9216 * c div 10"
proof (cases "c = 1")
  case True
  then show ?thesis by (simp add: minRam_of_1)
next
  case False
  with assms have "c \<in> set [2..96]" unfolding set_upto by simp
  with minRam_table show ?thesis
    unfolding list_all_iff by blast
qed

lemma f64_of_int_exact:
  assumes "0 \<le> m" "m < 2 ^ 62" "512 dvd m"
  shows "\<exists>q k. f64_of_int m = Dyadic q (int k) \<and> q * 2 ^ k = m"
proof (cases "m < 2 ^ 53")
  case True
  then have "f64_of_int m = Dyadic m (int 0)"
    using assms(1) by (simp add: f64_of_int_small)
  then show ?thesis
    by (metis mult.right_neutral power_0)
next
  case False
  define n where "n = bitlen_nat (nat \<bar>m\<bar>)"
  define k where "k = n - 53"
  have "\<not> nat \<bar>m\<bar> < 2 ^ 53"
    using False assms(1) by (simp add: nat_less_iff)
  then have n_gt: "53 < n"
    unfolding n_def using bitlen_nat_le [of "nat \<bar>m\<bar>" 53] by simp
  have "nat \<bar>m\<bar> < 2 ^ 62"
    using assms(1,2) by (simp add: nat_less_iff)
  then have n_le: "n \<le> 62"
    unfolding n_def by (simp add: bitlen_nat_le)
  have k: "0 < k" "k \<le> 9"
    using n_gt n_le unfolding k_def by simp_all
  have "(2::int) ^ k dvd 2 ^ 9"
    using k(2) by (rule le_imp_power_dvd)
  then have dvd: "(2::int) ^ k dvd m"
    using assms(3) by (simp add: dvd_trans)
  have r0: "\<bar>m\<bar> mod 2 ^ k = 0"
    using dvd assms(1) by (simp add: mod_eq_0_iff_dvd)
  have m_pos: "0 < m"
    using False assms(1) by (cases "m = 0") simp_all
  have "f64_round (Dyadic m 0) = round_shift m 0 k"
    using n_gt by (simp add: f64_round_def round_bits_def n_def [symmetric] k_def)
  also have "\<dots> = Dyadic (m div 2 ^ k) (int k)"
    using r0 m_pos by (simp add: round_shift_def round_half_even_def)
  finally have "f64_of_int m = Dyadic (m div 2 ^ k) (int k)"
    by (simp add: f64_of_int_def)
  moreover have "m div 2 ^ k * 2 ^ k = m"
    using dvd by simp
  ultimately show ?thesis
    by blast
qed

text \<open>The constant for \<open>0.9\<close> is a 53-bit significand within half a unit of \<open>9 / 10\<close>.\<close>

lemma f64_0_9_nearest:
  "2 ^ 52 \<le> mant f64_0_9 \<and> mant f64_0_9 < 2 ^ 53
   \<and> \<bar>of_int (mant f64_0_9) * (1 / 2 ^ 53) - (9 / 10 :: rat)\<bar> < 1 / 2 ^ 54"
  by (simp add: f64_0_9_def)

section \<open>Properties of the validator\<close>

lemma wrap64_id: "int64_min \<le> x \<Longrightarrow> x \<le> int64_max \<Longrightarrow> wrap64 x = x"
  by (simp add: wrap64_def int64_min_def int64_max_def)

lemma wrap64_range: "int64_min \<le> wrap64 x \<and> wrap64 x \<le> int64_max"
proof -
  have "0 \<le> (x + 2 ^ 63) mod 2 ^ 64" "(x + 2 ^ 63) mod 2 ^ 64 < (2 ^ 64 :: int)"
    by simp_all
  then show ?thesis
    by (simp add: wrap64_def int64_min_def int64_max_def)
qed

lemma go_quo_256: "go_quo a 256 = (if 0 \<le> a then a div 256 else - ((- a) div 256))"
  by (simp add: go_quo_def sgn_if)

lemma go_rem_pos:
  assumes "0 < b"
  shows "go_rem a b = sgn a * (\<bar>a\<bar> mod b)"
proof -
  have "sgn a * (\<bar>a\<bar> mod b) = sgn a * \<bar>a\<bar> - sgn a * (b * (\<bar>a\<bar> div b))"
    by (simp add: minus_mult_div_eq_mod [symmetric] right_diff_distrib)
  also have "\<dots> = a - b * (sgn a * sgn b * (\<bar>a\<bar> div \<bar>b\<bar>))"
    using assms by (simp add: mult_sgn_abs)
  finally show ?thesis
    by (simp add: go_rem_def go_quo_def)
qed

lemma go_rem_eq_0_iff: "0 < b \<Longrightarrow> go_rem a b = 0 \<longleftrightarrow> b dvd a"
  by (auto simp: go_rem_pos mod_eq_0_iff_dvd sgn_0_0)

lemma go_rem_256_iff: "go_rem a 256 = 0 \<longleftrightarrow> a mod 256 = 0"
  by (simp add: go_rem_eq_0_iff mod_eq_0_iff_dvd)

lemma go_rem_2_iff: "go_rem a 2 = 0 \<longleftrightarrow> even a"
  by (simp add: go_rem_eq_0_iff)

lemma spec_min_ram_eq: "0 \<le> c \<Longrightarrow> spec_min_ram c = 9216 * c div 10"
proof -
  assume c: "0 \<le> c"
  have eq: "9 / 10 * (of_int c :: rat) * 1024 = of_int (9216 * c) / of_int 10"
    by simp
  have "0 \<le> 9 / 10 * (of_int c :: rat) * 1024"
    using c by simp
  then show ?thesis
    unfolding spec_min_ram_def trunc_rat_def eq [symmetric]
    by (simp only: if_True eq floor_divide_of_int_eq)
qed

lemma spec_max_ram_eq: "0 \<le> c \<Longrightarrow> spec_max_ram c = 6656 * c"
proof -
  assume c: "0 \<le> c"
  have eq: "13 / 2 * (of_int c :: rat) * 1024 = of_int (6656 * c)"
    by simp
  have "0 \<le> 13 / 2 * (of_int c :: rat) * 1024"
    using c by simp
  then show ?thesis
    unfolding spec_max_ram_def trunc_rat_def eq [symmetric]
    by (simp only: if_True eq floor_of_int)
qed

lemma validateTier_unfold:
  "validateTier cpu ram =
     (if cpu < 1 \<or> cpu > 96 then False
      else if cpu \<noteq> 1 \<and> go_rem cpu 2 \<noteq> 0 then False
      else if go_rem ram 256 \<noteq> 0 \<or> ram < 3840 then False
      else ram \<ge> minRam_of cpu \<and> ram \<le> maxRam_of cpu)"
  by (simp only: validateTier_def minRam_of_def maxRam_of_def Let_def)

lemma validateTier_iff:
  "validateTier cpu ram \<longleftrightarrow>
     1 \<le> cpu \<and> cpu \<le> 96 \<and> (cpu = 1 \<or> even cpu) \<and> ram mod 256 = 0 \<and> 3840 \<le> ram \<and>
     9216 * cpu div 10 \<le> ram \<and> ram \<le> 6656 * cpu"
proof (cases "1 \<le> cpu \<and> cpu \<le> 96")
  case True
  then have b: "minRam_of cpu = 9216 * cpu div 10" "maxRam_of cpu = 6656 * cpu"
    by (simp_all add: minRam_of_exact maxRam_of_exact)
  have "validateTier cpu ram \<longleftrightarrow>
      \<not> (cpu \<noteq> 1 \<and> go_rem cpu 2 \<noteq> 0) \<and> \<not> (go_rem ram 256 \<noteq> 0 \<or> ram < 3840) \<and>
      minRam_of cpu \<le> ram \<and> ram \<le> maxRam_of cpu"
    using True by (simp add: validateTier_unfold)
  also have "\<dots> \<longleftrightarrow> (cpu = 1 \<or> even cpu) \<and> ram mod 256 = 0 \<and> 3840 \<le> ram \<and>
      minRam_of cpu \<le> ram \<and> ram \<le> maxRam_of cpu"
    unfolding go_rem_256_iff go_rem_2_iff by (simp add: not_less)
  finally have "validateTier cpu ram \<longleftrightarrow> (cpu = 1 \<or> even cpu) \<and> ram mod 256 = 0 \<and>
      3840 \<le> ram \<and> minRam_of cpu \<le> ram \<and> ram \<le> maxRam_of cpu" .
  with True show ?thesis
    by (simp only: b simp_thms)
next
  case False
  then show ?thesis
    unfolding validateTier_unfold by (simp add: not_le) linarith
qed

text \<open>
  C1: for all integers \<open>vcpu\<close> and \<open>memory_mb\<close>, \<open>validateTier\<close> returns true
  if and only if \<open>1 \<le> vcpu \<le> 96\<close>, \<open>vcpu\<close> is 1 or even, \<open>memory_mb\<close> is a
  multiple of 256 and at least 3840, and \<open>memory_mb\<close> lies between the truncations
  toward zero of \<open>0.9 * vcpu * 1024\<close> and \<open>6.5 * vcpu * 1024\<close>. In particular the
  tiers \<open>(1, 3840)\<close> and \<open>(2, 3840)\<close> are valid.
\<close>

theorem validateTier_spec:
  "(validateTier vcpu memory_mb \<longleftrightarrow> spec_IsValid vcpu memory_mb)
   \<and> validateTier 1 3840 \<and> validateTier 2 3840"
proof -
  have "validateTier vcpu memory_mb \<longleftrightarrow> spec_IsValid vcpu memory_mb"
  proof (cases "0 \<le> vcpu")
    case True
    then show ?thesis
      by (simp add: validateTier_iff spec_IsValid_def spec_min_ram_eq spec_max_ram_eq)
  next
    case False
    then show ?thesis
      by (simp add: validateTier_iff spec_IsValid_def)
  qed
  moreover have "validateTier 1 3840" "validateTier 2 3840"
    by (simp_all add: validateTier_iff)
  ultimately show ?thesis by simp
qed

theorem validateTier_spec_witness:
  "validateTier 4 15360 \<and> spec_IsValid 4 15360 \<and> \<not> validateTier 8 7168 \<and> \<not> spec_IsValid 8 7168"
  using validateTier_spec [of 4 15360] validateTier_spec [of 8 7168]
  by (simp add: validateTier_iff)

section \<open>Properties of the rounding engine\<close>

lemma round_up_ge: "(m::int) \<le> (m + 255) div 256 * 256"
  by linarith

lemma round_up_le: "(m + 255) div 256 * 256 \<le> (m::int) + 255"
  by linarith

lemma round_up_least:
  assumes "(m::int) \<le> r" "r mod 256 = 0"
  shows "(m + 255) div 256 * 256 \<le> r"
proof -
  from assms(2) obtain k where k: "r = k * 256"
    by (metis mod_eq_0_iff_dvd dvd_def mult.commute)
  have "(m + 255) div 256 \<le> (k * 256 + 255) div 256"
    using assms(1) unfolding k by (intro zdiv_mono1) simp_all
  also have "\<dots> = k"
    by simp
  finally show ?thesis
    unfolding k by simp
qed

lemma round_up_fixed:
  assumes "(r::int) mod 256 = 0"
  shows "(r + 255) div 256 * 256 = r"
  using round_up_least [OF order_refl assms] round_up_ge [of r] by simp

lemma go_quo_256_bounds:
  "(0 \<le> v \<longrightarrow> 0 \<le> go_quo v 256 * 256 \<and> go_quo v 256 * 256 \<le> v) \<and>
   (v < 0 \<longrightarrow> v \<le> go_quo v 256 * 256 \<and> go_quo v 256 * 256 \<le> 0)"
  unfolding go_quo_256 by (cases "0 \<le> v") simp_all

lemma go_mul_quo_256:
  assumes "int64_min \<le> v" "v \<le> int64_max"
  shows "go_mul (go_quo v 256) 256 = go_quo v 256 * 256"
proof -
  have "int64_min \<le> go_quo v 256 * 256 \<and> go_quo v 256 * 256 \<le> int64_max"
    using go_quo_256_bounds [of v] assms
    by (cases "0 \<le> v") (simp_all add: int64_min_def int64_max_def)
  then show ?thesis
    by (simp add: go_mul_def wrap64_id)
qed

lemma round_up_256_eq: "round_up_256 x = go_quo (wrap64 (x + 255)) 256 * 256"
  using wrap64_range [of "x + 255"]
  by (simp add: round_up_256_def go_add_def go_mul_quo_256)

lemma round_up_256_dvd: "256 dvd round_up_256 x"
  by (simp add: round_up_256_eq)

lemma round_up_256_small:
  assumes "0 \<le> x" "x \<le> 2 ^ 62"
  shows "round_up_256 x = (x + 255) div 256 * 256"
proof -
  have "wrap64 (x + 255) = x + 255"
    using assms by (simp add: wrap64_id int64_min_def int64_max_def)
  then show ?thesis
    using assms by (simp add: round_up_256_eq go_quo_256)
qed

lemma round_down_256_small:
  assumes "0 \<le> x" "x \<le> int64_max"
  shows "round_down_256 x = x div 256 * 256"
proof -
  have "go_mul (go_quo x 256) 256 = go_quo x 256 * 256"
    using assms by (intro go_mul_quo_256) (simp_all add: int64_min_def)
  then show ?thesis
    using assms by (simp add: round_down_256_def go_quo_256)
qed

lemma fix_cpu_range: "1 \<le> fix_cpu cpu \<and> fix_cpu cpu \<le> 96 \<and> (fix_cpu cpu = 1 \<or> even (fix_cpu cpu))"
proof (cases "1 \<le> cpu \<and> cpu \<le> 96 \<and> cpu \<noteq> 1 \<and> odd cpu")
  case True
  then have "go_add cpu 1 = cpu + 1"
    by (simp add: go_add_def wrap64_id int64_min_def int64_max_def)
  moreover from True have "cpu \<noteq> 96"
    by auto
  ultimately show ?thesis
    using True by (simp add: fix_cpu_def go_rem_2_iff)
next
  case False
  then show ?thesis
    by (auto simp: fix_cpu_def go_rem_2_iff)
qed

lemma fix_cpu_valid: "1 \<le> c \<Longrightarrow> c \<le> 96 \<Longrightarrow> c = 1 \<or> even c \<Longrightarrow> fix_cpu c = c"
  by (auto simp: fix_cpu_def go_rem_2_iff)

lemma ram_bounds:
  assumes "1 \<le> c" "c \<le> 96"
  shows "round_up_256 (minRam_of c) = (9216 * c div 10 + 255) div 256 * 256"
    and "round_down_256 (maxRam_of c) = 6656 * c"
proof -
  have "0 \<le> 9216 * c div 10" "9216 * c div 10 \<le> 2 ^ 62"
    using assms by simp_all
  then show "round_up_256 (minRam_of c) = (9216 * c div 10 + 255) div 256 * 256"
    using assms by (simp add: minRam_of_exact round_up_256_small)
  have "0 \<le> 6656 * c" "6656 * c \<le> int64_max"
    using assms by (simp_all add: int64_max_def)
  then have "round_down_256 (maxRam_of c) = 6656 * c div 256 * 256"
    using assms by (simp add: maxRam_of_exact round_down_256_small)
  also have "\<dots> = 6656 * c"
    by simp
  finally show "round_down_256 (maxRam_of c) = 6656 * c" .
qed

lemma nearestValidTier_steps:
  "nearestValidTier cpu ram =
     (fix_cpu cpu,
      clamp_ram (round_up_256 (minRam_of (fix_cpu cpu))) (round_down_256 (maxRam_of (fix_cpu cpu)))
        (floor_ram (round_up_256 ram)))"
  by (simp only: nearestValidTier_def fix_cpu_def round_up_256_def round_down_256_def
      floor_ram_def clamp_ram_def minRam_of_def maxRam_of_def Let_def)

lemma nearestValidTier_eq:
  "nearestValidTier cpu ram =
     (fix_cpu cpu,
      clamp_ram ((9216 * fix_cpu cpu div 10 + 255) div 256 * 256) (6656 * fix_cpu cpu)
        (max 3840 (round_up_256 ram)))"
  using fix_cpu_range [of cpu]
  by (simp add: nearestValidTier_steps ram_bounds floor_ram_def max_def)

lemma clamp_ram_valid:
  assumes c: "1 \<le> c" "c \<le> 96"
    and r: "3840 \<le> r" "256 dvd r"
  shows "clamp_ram ((9216 * c div 10 + 255) div 256 * 256) (6656 * c) r mod 256 = 0"
    and "3840 \<le> clamp_ram ((9216 * c div 10 + 255) div 256 * 256) (6656 * c) r"
    and "9216 * c div 10 \<le> clamp_ram ((9216 * c div 10 + 255) div 256 * 256) (6656 * c) r"
    and "clamp_ram ((9216 * c div 10 + 255) div 256 * 256) (6656 * c) r \<le> 6656 * c"
proof -
  define lo where "lo = (9216 * c div 10 + 255) div 256 * 256"
  define hi where "hi = 6656 * c"
  have "lo \<le> 9216 * c div 10 + 255"
    unfolding lo_def by (rule round_up_le)
  also have "\<dots> \<le> hi"
    using c unfolding hi_def by linarith
  finally have "lo \<le> hi" .
  then have lo: "9216 * c div 10 \<le> lo" "lo \<le> hi" "lo mod 256 = 0"
    unfolding lo_def by (simp_all add: round_up_ge)
  have hi: "3840 \<le> hi" "hi mod 256 = 0"
    using c unfolding hi_def by simp_all
  have rm: "r mod 256 = 0"
    using r by (simp add: mod_eq_0_iff_dvd)
  have cases: "clamp_ram lo hi r = r \<and> lo \<le> r \<and> r \<le> hi \<or> clamp_ram lo hi r = lo \<and> r < lo
      \<or> clamp_ram lo hi r = hi \<and> hi < r"
    using lo(2) by (auto simp: clamp_ram_def Let_def)
  show "clamp_ram ((9216 * c div 10 + 255) div 256 * 256) (6656 * c) r mod 256 = 0"
    using cases lo hi rm unfolding lo_def [symmetric] hi_def [symmetric] by auto
  show "3840 \<le> clamp_ram ((9216 * c div 10 + 255) div 256 * 256) (6656 * c) r"
    using cases lo hi r unfolding lo_def [symmetric] hi_def [symmetric] by auto
  show "9216 * c div 10 \<le> clamp_ram ((9216 * c div 10 + 255) div 256 * 256) (6656 * c) r"
    using cases lo hi r unfolding lo_def [symmetric] hi_def [symmetric] by auto
  show "clamp_ram ((9216 * c div 10 + 255) div 256 * 256) (6656 * c) r \<le> 6656 * c"
    using cases lo hi r unfolding lo_def [symmetric] hi_def [symmetric] by auto
qed

lemma nearestValidTier_valid:
  "validateTier (fst (nearestValidTier cpu ram)) (snd (nearestValidTier cpu ram))"
proof -
  have r: "3840 \<le> max 3840 (round_up_256 ram)" "256 dvd max 3840 (round_up_256 ram)"
    using round_up_256_dvd [of ram] by (simp_all add: max_def)
  show ?thesis
    using fix_cpu_range [of cpu] clamp_ram_valid [OF _ _ r, of "fix_cpu cpu"]
    by (simp add: nearestValidTier_eq validateTier_iff)
qed

lemma nearestValidTier_fixed:
  assumes "validateTier c r"
  shows "nearestValidTier c r = (c, r)"
proof -
  from assms have c: "1 \<le> c" "c \<le> 96" "c = 1 \<or> even c"
    and r: "r mod 256 = 0" "3840 \<le> r" "9216 * c div 10 \<le> r" "r \<le> 6656 * c"
    by (simp_all add: validateTier_iff)
  have "r \<le> 2 ^ 62"
    using r(4) c(2) by simp
  then have "round_up_256 r = (r + 255) div 256 * 256"
    using r(2) by (simp add: round_up_256_small)
  also have "\<dots> = r"
    using r(1) by (rule round_up_fixed)
  finally have up: "max 3840 (round_up_256 r) = r"
    using r(2) by simp
  have "(9216 * c div 10 + 255) div 256 * 256 \<le> r"
    using r(3) r(1) by (rule round_up_least)
  then have "clamp_ram ((9216 * c div 10 + 255) div 256 * 256) (6656 * c) r = r"
    using r(4) by (simp add: clamp_ram_def)
  then show ?thesis
    using c by (simp add: nearestValidTier_eq fix_cpu_valid up)
qed

text \<open>
  C2: for every pair of integers the tier that \<open>nearestValidTier\<close> returns satisfies
  the validator. In particular its vCPU count is 1 or an even number from 2 to 96, and
  the increment of an odd count does not leave the range: the inputs 95, 96 and 97 all
  give 96.
\<close>

theorem nearestValidTier_satisfies_validator:
  "validateTier (fst (nearestValidTier cpu ram)) (snd (nearestValidTier cpu ram))
   \<and> (fst (nearestValidTier cpu ram) = 1
      \<or> (even (fst (nearestValidTier cpu ram)) \<and> 2 \<le> fst (nearestValidTier cpu ram)
          \<and> fst (nearestValidTier cpu ram) \<le> 96))
   \<and> fst (nearestValidTier 95 ram) = 96
   \<and> fst (nearestValidTier 96 ram) = 96
   \<and> fst (nearestValidTier 97 ram) = 96"
proof -
  have "fix_cpu 95 = 96" "fix_cpu 96 = 96" "fix_cpu 97 = 96"
    by (simp_all add: fix_cpu_def go_rem_2_iff go_add_def wrap64_def)
  moreover have "fix_cpu cpu = 1 \<or> (even (fix_cpu cpu) \<and> 2 \<le> fix_cpu cpu \<and> fix_cpu cpu \<le> 96)"
    using fix_cpu_range [of cpu] by auto
  ultimately show ?thesis
    using nearestValidTier_valid [of cpu ram] by (simp add: nearestValidTier_eq)
qed

theorem nearestValidTier_satisfies_validator_witness:
  "validateTier (fst (nearestValidTier 95 32000)) (snd (nearestValidTier 95 32000))
   \<and> nearestValidTier 95 32000 = (96, 88576)"
proof -
  have "fix_cpu 95 = 96"
    by (simp add: fix_cpu_def go_rem_2_iff go_add_def wrap64_def)
  then have "nearestValidTier 95 32000 = (96, 88576)"
    by (simp add: nearestValidTier_eq round_up_256_small clamp_ram_def)
  then show ?thesis
    using nearestValidTier_satisfies_validator [of 95 32000] by simp
qed

text \<open>
  C5: \<open>nearestValidTier\<close> is idempotent: applied to the pair it returned, it returns
  that pair again.
\<close>

theorem nearestValidTier_idempotent:
  "nearestValidTier (fst (nearestValidTier v r)) (snd (nearestValidTier v r)) = nearestValidTier v r"
  using nearestValidTier_fixed [OF nearestValidTier_valid [of v r]] by simp

theorem nearestValidTier_idempotent_witness:
  "nearestValidTier (- 3) 100000 = (1, 6656) \<and> nearestValidTier 1 6656 = (1, 6656)"
proof -
  have "fix_cpu (- 3) = 1"
    by (simp add: fix_cpu_def)
  then have "nearestValidTier (- 3) 100000 = (1, 6656)"
    by (simp add: nearestValidTier_eq round_up_256_small clamp_ram_def)
  then show ?thesis
    using nearestValidTier_idempotent [of "- 3" 100000] by simp
qed

section \<open>Properties of the table of known tiers\<close>

text \<open>
  C8: the table of known tiers has exactly 27 entries, is strictly ascending in the
  order of the pairs (vCPU count first, memory second), and each of its entries
  satisfies the validator.
\<close>

theorem knownTiers_sorted_valid:
  "length knownTiers = 27
   \<and> sorted_wrt (\<lambda>a b. pair_less (tier_cpu a, tier_ram a) (tier_cpu b, tier_ram b)) knownTiers
   \<and> list_all (\<lambda>t. validateTier (tier_cpu t) (tier_ram t)) knownTiers"
  by (simp add: knownTiers_def pair_less_def validateTier_iff)

theorem knownTiers_sorted_valid_witness:
  "validateTier (tier_cpu (knownTiers ! 26)) (tier_ram (knownTiers ! 26))
   \<and> knownTiers ! 26 = \<lparr>tier_cpu = 96, tier_ram = 638976\<rparr>"
proof -
  have "knownTiers ! 26 \<in> set knownTiers"
    using knownTiers_sorted_valid by (intro nth_mem) simp
  then have "validateTier (tier_cpu (knownTiers ! 26)) (tier_ram (knownTiers ! 26))"
    using knownTiers_sorted_valid unfolding list_all_iff by blast
  moreover have "knownTiers ! 26 = \<lparr>tier_cpu = 96, tier_ram = 638976\<rparr>"
    by (simp add: knownTiers_def)
  ultimately show ?thesis by simp
qed

subsection \<open>The two searches\<close>

lemma next_from_none:
  "(\<forall>t\<in>set ts. \<not> tier_above cpu ram t) \<longleftrightarrow> next_from cpu ram ts = (0, 0, False)"
  by (induction ts) (auto simp: tier_above_def)

lemma next_from_first:
  "i < length ts \<Longrightarrow> tier_above cpu ram (ts ! i) \<Longrightarrow> (\<forall>j<i. \<not> tier_above cpu ram (ts ! j))
   \<Longrightarrow> next_from cpu ram ts = (tier_cpu (ts ! i), tier_ram (ts ! i), True)"
proof (induction ts arbitrary: i)
  case Nil
  then show ?case by simp
next
  case (Cons t ts)
  show ?case
  proof (cases i)
    case 0
    with Cons.prems show ?thesis
      by (simp add: tier_above_def)
  next
    case (Suc k)
    with Cons.prems have "\<not> tier_above cpu ram t"
      by auto
    moreover have "next_from cpu ram ts = (tier_cpu (ts ! k), tier_ram (ts ! k), True)"
      using Cons.prems Suc by (intro Cons.IH) auto
    ultimately show ?thesis
      using Suc by (auto simp: tier_above_def)
  qed
qed

lemma next_from_above:
  "next_from cpu ram ts = (c, r, True) \<Longrightarrow> cpu < c \<or> (c = cpu \<and> ram < r)"
  by (induction ts) (auto split: if_splits)

lemma prev_from_none:
  "(\<forall>j<n. \<not> tier_below cpu ram (ts ! j)) \<longleftrightarrow> prev_from cpu ram ts n = (0, 0, False)"
  by (induction n) (auto simp: tier_below_def less_Suc_eq)

lemma prev_from_last:
  "i < n \<Longrightarrow> tier_below cpu ram (ts ! i) \<Longrightarrow> (\<forall>j. i < j \<and> j < n \<longrightarrow> \<not> tier_below cpu ram (ts ! j))
   \<Longrightarrow> prev_from cpu ram ts n = (tier_cpu (ts ! i), tier_ram (ts ! i), True)"
proof (induction n)
  case 0
  then show ?case by simp
next
  case (Suc n)
  show ?case
  proof (cases "i = n")
    case True
    with Suc.prems show ?thesis
      by (simp add: tier_below_def)
  next
    case False
    with Suc.prems have "i < n" "\<not> tier_below cpu ram (ts ! n)"
      by auto
    moreover from this Suc.prems
    have "prev_from cpu ram ts n = (tier_cpu (ts ! i), tier_ram (ts ! i), True)"
      by (intro Suc.IH) auto
    ultimately show ?thesis
      by (auto simp: tier_below_def)
  qed
qed

lemma prev_from_below:
  "prev_from cpu ram ts n = (c, r, True) \<Longrightarrow> c < cpu \<or> (c = cpu \<and> r < ram)"
  by (induction n) (auto split: if_splits)

lemma next_from_found: "snd (snd (next_from cpu ram ts)) \<longleftrightarrow> (\<exists>t\<in>set ts. tier_above cpu ram t)"
  by (induction ts) (auto simp: tier_above_def)

lemma prev_from_found: "snd (snd (prev_from cpu ram ts n)) \<longleftrightarrow> (\<exists>j<n. tier_below cpu ram (ts ! j))"
  by (induction n) (auto simp: tier_below_def less_Suc_eq)

text \<open>
  C4: \<open>findNextKnownTier\<close> returns, with \<open>found = true\<close>, the first entry of the
  table, in ascending order, whose vCPU count is above the query's or equal to it with
  more memory; \<open>findPreviousKnownTier\<close> returns the last entry whose vCPU count is
  below the query's or equal to it with less memory; each reports \<open>found = false\<close>
  exactly when no entry qualifies. In particular the tier after \<open>(1, 3840)\<close> is
  \<open>(2, 7680)\<close>.
\<close>

theorem known_tier_search:
  "(i < length knownTiers \<and> tier_above cpu ram (knownTiers ! i)
      \<and> (\<forall>j<i. \<not> tier_above cpu ram (knownTiers ! j))
    \<longrightarrow> findNextKnownTier cpu ram = (tier_cpu (knownTiers ! i), tier_ram (knownTiers ! i), True))
   \<and> (snd (snd (findNextKnownTier cpu ram)) \<longleftrightarrow> (\<exists>t\<in>set knownTiers. tier_above cpu ram t))
   \<and> (k < length knownTiers \<and> tier_below cpu ram (knownTiers ! k)
      \<and> (\<forall>j. k < j \<and> j < length knownTiers \<longrightarrow> \<not> tier_below cpu ram (knownTiers ! j))
    \<longrightarrow> findPreviousKnownTier cpu ram = (tier_cpu (knownTiers ! k), tier_ram (knownTiers ! k), True))
   \<and> (snd (snd (findPreviousKnownTier cpu ram)) \<longleftrightarrow> (\<exists>t\<in>set knownTiers. tier_below cpu ram t))
   \<and> findNextKnownTier 1 3840 = (2, 7680, True)"
proof -
  have "(\<exists>j<length knownTiers. tier_below cpu ram (knownTiers ! j))
      \<longleftrightarrow> (\<exists>t\<in>set knownTiers. tier_below cpu ram t)"
    by (metis in_set_conv_nth)
  moreover have "findNextKnownTier 1 3840 = (2, 7680, True)"
    by (simp add: findNextKnownTier_def knownTiers_def)
  ultimately show ?thesis
    unfolding findNextKnownTier_def findPreviousKnownTier_def
    using next_from_first [of i knownTiers cpu ram] next_from_found [of cpu ram knownTiers]
      prev_from_last [of k "length knownTiers" cpu ram knownTiers]
      prev_from_found [of cpu ram knownTiers "length knownTiers"]
    by blast
qed

theorem known_tier_search_witness:
  "findNextKnownTier 1 3840 = (2, 7680, True)
   \<and> findPreviousKnownTier 100 0 = (96, 638976, True)
   \<and> tier_above 1 3840 (knownTiers ! 1) \<and> tier_below 100 0 (knownTiers ! 26)"
proof -
  have a: "1 < length knownTiers \<and> tier_above 1 3840 (knownTiers ! 1)
      \<and> (\<forall>j<1. \<not> tier_above 1 3840 (knownTiers ! j))"
    by (simp add: knownTiers_def tier_above_def)
  have b: "26 < length knownTiers \<and> tier_below 100 0 (knownTiers ! 26)
      \<and> (\<forall>j. 26 < j \<and> j < length knownTiers \<longrightarrow> \<not> tier_below 100 0 (knownTiers ! j))"
    by (simp add: knownTiers_def tier_below_def)
  have "findNextKnownTier 1 3840 = (tier_cpu (knownTiers ! 1), tier_ram (knownTiers ! 1), True)"
    using known_tier_search [of 1 1 3840 0] a by blast
  moreover have "findPreviousKnownTier 100 0 = (tier_cpu (knownTiers ! 26), tier_ram (knownTiers ! 26), True)"
    using known_tier_search [of 0 100 0 26] b by blast
  ultimately show ?thesis
    using a b by (simp add: knownTiers_def)
qed

text \<open>
  C9: when both searches find an entry, the two results bracket the query in the order
  of the pairs: the entry below is strictly less than the query, and the query strictly
  less than the entry above.
\<close>

theorem known_tier_search_brackets:
  "findNextKnownTier cpu ram = (ac, ar, True) \<Longrightarrow> findPreviousKnownTier cpu ram = (bc, br, True)
   \<Longrightarrow> pair_less (bc, br) (cpu, ram) \<and> pair_less (cpu, ram) (ac, ar)"
  unfolding findNextKnownTier_def findPreviousKnownTier_def pair_less_def
  by (auto dest: next_from_above prev_from_below)

theorem known_tier_search_brackets_witness:
  "findNextKnownTier 2 7680 = (2, 13312, True) \<and> findPreviousKnownTier 2 7680 = (1, 3840, True)
   \<and> pair_less (1, 3840) (2, 7680) \<and> pair_less (2, 7680) (2, 13312)"
proof -
  have a: "findNextKnownTier 2 7680 = (2, 13312, True)"
    by (simp add: findNextKnownTier_def knownTiers_def)
  have b: "findPreviousKnownTier 2 7680 = (1, 3840, True)"
    by (simp add: findPreviousKnownTier_def knownTiers_def eval_nat_numeral)
  show ?thesis
    using known_tier_search_brackets [OF a b] a b by simp
qed

section \<open>Properties of tier identifiers\<close>

lemma is_digit_digit_char: "d < 10 \<Longrightarrow> is_digit (digit_char d)"
  by (simp add: is_digit_def digit_char_def)

lemma digit_val_digit_char: "d < 10 \<Longrightarrow> digit_val (digit_char d) = int d"
  by (simp add: digit_val_def digit_char_def)

lemma not_digit_minus: "\<not> is_digit CHR ''-''"
  by (simp add: is_digit_def)

lemma not_digit_plus: "\<not> is_digit CHR ''+''"
  by (simp add: is_digit_def)

lemma digits_of_digits: "list_all is_digit (digits_of n)"
proof (induction n rule: digits_of.induct)
  case (1 n)
  show ?case
  proof (cases "n < 10")
    case True
    then show ?thesis
      by (subst digits_of.simps) (simp add: is_digit_digit_char)
  next
    case False
    then show ?thesis
      using 1 by (subst digits_of.simps) (simp add: is_digit_digit_char)
  qed
qed

lemma digits_of_nonempty: "digits_of n \<noteq> []"
  by (subst digits_of.simps) simp

lemma digits_value_snoc: "digits_value (ds @ [c]) = digits_value ds * 10 + digit_val c"
  by (simp add: digits_value_def)

lemma digits_value_digits_of: "digits_value (digits_of n) = int n"
proof (induction n rule: digits_of.induct)
  case (1 n)
  show ?case
  proof (cases "n < 10")
    case True
    then show ?thesis
      by (subst digits_of.simps) (simp add: digits_value_def digit_val_digit_char)
  next
    case False
    then have "digits_value (digits_of n) = int (n div 10) * 10 + int (n mod 10)"
      using 1 by (subst digits_of.simps) (simp add: digits_value_snoc digit_val_digit_char)
    also have "\<dots> = int n"
      by (simp add: zdiv_int zmod_int)
    finally show ?thesis .
  qed
qed

lemma digits_value_nonneg: "list_all is_digit ds \<Longrightarrow> 0 \<le> digits_value ds"
proof (induction ds rule: rev_induct)
  case Nil
  then show ?case by (simp add: digits_value_def)
next
  case (snoc c ds)
  then have "0 \<le> digit_val c"
    by (simp add: is_digit_def digit_val_def)
  with snoc show ?case
    by (simp add: digits_value_snoc)
qed

text \<open>On a nonempty string of digits \<open>Atoi\<close> fails only by the range.\<close>

lemma Atoi_digits:
  assumes "ds \<noteq> []" "list_all is_digit ds"
  shows "Atoi ds = (if digits_value ds \<le> int64_max then Some (digits_value ds) else None)"
proof -
  obtain c cs where ds: "ds = c # cs"
    using assms(1) by (cases ds) auto
  with assms(2) have "is_digit c"
    by simp
  then have "c \<noteq> CHR ''-''" "c \<noteq> CHR ''+''"
    using not_digit_minus not_digit_plus by auto
  then have "unsigned_part ds = ds" "signed_value ds = digits_value ds"
    by (simp_all add: unsigned_part_def signed_value_def ds)
  moreover have "int64_min \<le> digits_value ds"
    using digits_value_nonneg [OF assms(2)] by (simp add: int64_min_def)
  ultimately show ?thesis
    using assms by (auto simp: Atoi_def)
qed

lemma Atoi_Itoa: "0 \<le> n \<Longrightarrow> n \<le> int64_max \<Longrightarrow> Atoi (Itoa n) = Some n"
  by (simp add: Itoa_def Atoi_digits digits_of_nonempty digits_of_digits digits_value_digits_of)

lemma strip_prefix_append: "strip_prefix p (p @ r) = Some r"
  by (induction p) simp_all

lemma strip_prefix_Some: "strip_prefix p s = Some r \<Longrightarrow> s = p @ r"
  by (induction p s rule: strip_prefix.induct) (auto split: if_splits)

lemma takeWhile_digits:
  assumes "list_all is_digit ds" "q = [] \<or> \<not> is_digit (hd q)"
  shows "takeWhile is_digit (ds @ q) = ds" "dropWhile is_digit (ds @ q) = q"
proof -
  have "takeWhile is_digit q = []" "dropWhile is_digit q = q"
    using assms(2) by (cases q; simp)+
  moreover have "\<forall>x\<in>set ds. is_digit x"
    using assms(1) by (simp add: list_all_iff)
  ultimately show "takeWhile is_digit (ds @ q) = ds" "dropWhile is_digit (ds @ q) = q"
    by simp_all
qed

text \<open>
  The matcher at one position against the pattern read as a language: it succeeds
  exactly on the texts that begin with \<open>db-custom-\<close>, digits, \<open>-\<close>, digits, and its
  groups are the first run of digits and the whole of the second.
\<close>

lemma tier_match_here_occurrence:
  assumes "d1 \<noteq> []" "d2 \<noteq> []" "list_all is_digit d1" "list_all is_digit d2"
    and "q = [] \<or> \<not> is_digit (hd q)"
  shows "tier_match_here (''db-custom-'' @ d1 @ ''-'' @ d2 @ q) =
     Some [''db-custom-'' @ d1 @ ''-'' @ d2, d1, d2]"
proof -
  have "strip_prefix ''db-custom-'' (''db-custom-'' @ d1 @ ''-'' @ d2 @ q) = Some (d1 @ ''-'' @ d2 @ q)"
    by (rule strip_prefix_append)
  moreover have "takeWhile is_digit (d1 @ ''-'' @ d2 @ q) = d1"
    "dropWhile is_digit (d1 @ ''-'' @ d2 @ q) = ''-'' @ d2 @ q"
    using takeWhile_digits [OF assms(3), of "''-'' @ d2 @ q"] not_digit_minus by simp_all
  moreover have "takeWhile is_digit (d2 @ q) = d2"
    using takeWhile_digits [OF assms(4,5)] by simp
  ultimately show ?thesis
    using assms(1,2) unfolding tier_match_here_def by simp
qed

lemma tier_match_here_Some:
  assumes "tier_match_here s = Some m"
  shows "\<exists>d1 d2 q. s = ''db-custom-'' @ d1 @ ''-'' @ d2 @ q \<and> d1 \<noteq> [] \<and> d2 \<noteq> []
           \<and> list_all is_digit d1 \<and> list_all is_digit d2 \<and> (q = [] \<or> \<not> is_digit (hd q))
           \<and> m = [''db-custom-'' @ d1 @ ''-'' @ d2, d1, d2]"
proof -
  from assms obtain r1 where r1: "strip_prefix ''db-custom-'' s = Some r1"
    unfolding tier_match_here_def by (auto split: option.splits)
  then have s: "s = ''db-custom-'' @ r1"
    by (rule strip_prefix_Some)
  define d1 where "d1 = takeWhile is_digit r1"
  from assms r1 have d1: "d1 \<noteq> []"
    unfolding tier_match_here_def d1_def by (auto split: if_splits)
  from assms r1 d1 obtain c r2 where r2: "dropWhile is_digit r1 = c # r2"
    unfolding tier_match_here_def d1_def by (auto split: if_splits list.splits)
  define d2 where "d2 = takeWhile is_digit r2"
  from assms r1 d1 r2 have c: "c = CHR ''-''" and d2: "d2 \<noteq> []"
    and m: "m = [''db-custom-'' @ d1 @ ''-'' @ d2, d1, d2]"
    unfolding tier_match_here_def d1_def d2_def by (auto split: if_splits)
  have "r1 = d1 @ c # r2"
    unfolding d1_def r2 [symmetric] by simp
  moreover have "r2 = d2 @ dropWhile is_digit r2"
    unfolding d2_def by simp
  ultimately have "s = ''db-custom-'' @ d1 @ ''-'' @ d2 @ dropWhile is_digit r2"
    using s c by simp
  moreover have "list_all is_digit d1" "list_all is_digit d2"
    unfolding d1_def d2_def list_all_iff by (auto dest: set_takeWhileD)
  moreover have "dropWhile is_digit r2 = [] \<or> \<not> is_digit (hd (dropWhile is_digit r2))"
    using hd_dropWhile [of is_digit r2] by auto
  ultimately show ?thesis
    using d1 d2 m by blast
qed

lemma FindStringSubmatch_here:
  "tier_match_here s = Some m \<Longrightarrow> FindStringSubmatch s = m"
proof (cases s)
  case Nil
  assume "tier_match_here s = Some m"
  with Nil show ?thesis
    by (simp add: tier_match_here_def)
next
  case (Cons c cs)
  assume "tier_match_here s = Some m"
  with Cons show ?thesis
    by simp
qed

lemma FindStringSubmatch_leftmost:
  "(\<forall>j<length pre. tier_match_here (drop j (pre @ t)) = None) \<Longrightarrow> tier_match_here t = Some m
   \<Longrightarrow> FindStringSubmatch (pre @ t) = m"
proof (induction pre)
  case Nil
  then show ?case
    by (simp add: FindStringSubmatch_here)
next
  case (Cons c pre)
  from Cons.prems(1) have "tier_match_here (c # pre @ t) = None"
    by (metis append_Cons drop0 length_greater_0_conv list.distinct(1))
  moreover have "\<forall>j<length pre. tier_match_here (drop j (pre @ t)) = None"
  proof (intro allI impI)
    fix j
    assume "j < length pre"
    then have "Suc j < length (c # pre)"
      by simp
    with Cons.prems(1) have "tier_match_here (drop (Suc j) ((c # pre) @ t)) = None"
      by blast
    then show "tier_match_here (drop j (pre @ t)) = None"
      by simp
  qed
  ultimately show ?case
    using Cons.IH Cons.prems(2) by simp
qed

lemma FindStringSubmatch_some:
  "tier_match_here t = Some m0
   \<Longrightarrow> \<exists>j m. j \<le> length pre \<and> tier_match_here (drop j (pre @ t)) = Some m
        \<and> FindStringSubmatch (pre @ t) = m"
proof (induction pre)
  case Nil
  then show ?case
    by (simp add: FindStringSubmatch_here)
next
  case (Cons c pre)
  show ?case
  proof (cases "tier_match_here (c # pre @ t)")
    case None
    from Cons obtain j m where "j \<le> length pre" "tier_match_here (drop j (pre @ t)) = Some m"
      "FindStringSubmatch (pre @ t) = m"
      by blast
    then have "Suc j \<le> length (c # pre) \<and> tier_match_here (drop (Suc j) ((c # pre) @ t)) = Some m
        \<and> FindStringSubmatch ((c # pre) @ t) = m"
      using None by simp
    then show ?thesis
      by blast
  next
    case (Some m)
    then have "0 \<le> length (c # pre) \<and> tier_match_here (drop 0 ((c # pre) @ t)) = Some m
        \<and> FindStringSubmatch ((c # pre) @ t) = m"
      by simp
    then show ?thesis
      by blast
  qed
qed

lemma parseTier_of_match:
  assumes "FindStringSubmatch s = [w, a, b]" "a \<noteq> []" "b \<noteq> []"
    "list_all is_digit a" "list_all is_digit b"
  shows "parseTier s =
     (if digits_value a \<le> int64_max \<and> digits_value b \<le> int64_max
      then Inr (digits_value a, digits_value b) else Inl InvalidTierNumbers)"
  using assms by (simp add: parseTier_def Atoi_digits)

lemma FindStringSubmatch_match:
  "FindStringSubmatch s \<noteq> [] \<Longrightarrow> \<exists>j. tier_match_here (drop j s) = Some (FindStringSubmatch s)"
proof (induction s)
  case Nil
  then show ?case by simp
next
  case (Cons c cs)
  show ?case
  proof (cases "tier_match_here (c # cs)")
    case None
    with Cons obtain j where "tier_match_here (drop j cs) = Some (FindStringSubmatch cs)"
      by auto
    then have "tier_match_here (drop (Suc j) (c # cs)) = Some (FindStringSubmatch (c # cs))"
      using None by simp
    then show ?thesis
      by blast
  next
    case (Some m)
    then have "tier_match_here (drop 0 (c # cs)) = Some (FindStringSubmatch (c # cs))"
      by simp
    then show ?thesis
      by blast
  qed
qed

lemma parseTier_nonneg:
  assumes "parseTier s = Inr (c, r)"
  shows "0 \<le> c \<and> 0 \<le> r"
proof -
  from assms have len: "length (FindStringSubmatch s) = 3"
    by (auto simp: parseTier_def Let_def split: if_splits)
  then have "FindStringSubmatch s \<noteq> []"
    by auto
  from FindStringSubmatch_match [OF this] obtain j
    where "tier_match_here (drop j s) = Some (FindStringSubmatch s)"
    by blast
  from tier_match_here_Some [OF this] obtain w a b
    where m: "FindStringSubmatch s = [w, a, b]"
      and d: "a \<noteq> []" "b \<noteq> []" "list_all is_digit a" "list_all is_digit b"
    by blast
  from assms have "c = digits_value a" "r = digits_value b"
    unfolding parseTier_of_match [OF m d] by (auto split: if_splits)
  then show ?thesis
    using d by (simp add: digits_value_nonneg)
qed

text \<open>
  C6: parsing after formatting is the identity: for every tier whose two fields are
  non-negative values of \<open>int\<close>, \<open>parseTier\<close> succeeds on the formatted
  string \<open>db-custom-<vcpu>-<ram>\<close> and returns exactly the two fields.
\<close>

theorem parseTier_formatTier:
  "0 \<le> vcpu \<Longrightarrow> vcpu \<le> int64_max \<Longrightarrow> 0 \<le> ram \<Longrightarrow> ram \<le> int64_max
   \<Longrightarrow> parseTier (formatTier vcpu ram) = Inr (vcpu, ram)"
proof -
  assume range: "0 \<le> vcpu" "vcpu \<le> int64_max" "0 \<le> ram" "ram \<le> int64_max"
  define d1 where "d1 = digits_of (nat vcpu)"
  define d2 where "d2 = digits_of (nat ram)"
  have d: "d1 \<noteq> []" "d2 \<noteq> []" "list_all is_digit d1" "list_all is_digit d2"
    unfolding d1_def d2_def by (simp_all add: digits_of_nonempty digits_of_digits)
  have v: "digits_value d1 = vcpu" "digits_value d2 = ram"
    using range unfolding d1_def d2_def by (simp_all add: digits_value_digits_of)
  have "formatTier vcpu ram = ''db-custom-'' @ d1 @ ''-'' @ d2 @ []"
    using range by (simp add: formatTier_def Itoa_def d1_def d2_def)
  then have "tier_match_here (formatTier vcpu ram) = Some [''db-custom-'' @ d1 @ ''-'' @ d2, d1, d2]"
    using tier_match_here_occurrence [OF d, of "[]"] by simp
  then have "FindStringSubmatch (formatTier vcpu ram) = [''db-custom-'' @ d1 @ ''-'' @ d2, d1, d2]"
    by (rule FindStringSubmatch_here)
  then show ?thesis
    using range by (simp add: parseTier_of_match [OF _ d] v)
qed

lemmas string_eval = formatTier_def Itoa_def digits_of.simps digit_char_def char_of_def bit_0 parseTier_def
  tier_match_here_def is_digit_def Atoi_def unsigned_part_def signed_value_def digits_value_def
  digit_val_def int64_min_def int64_max_def

theorem parseTier_formatTier_witness:
  "formatTier 4 15360 = ''db-custom-4-15360'' \<and> parseTier ''db-custom-4-15360'' = Inr (4, 15360)"
proof -
  have "formatTier 4 15360 = ''db-custom-4-15360''"
    by (simp add: string_eval)
  moreover have "parseTier (formatTier 4 15360) = Inr (4, 15360)"
    using parseTier_formatTier [of 4 15360] by (simp add: int64_max_def)
  ultimately show ?thesis
    by simp
qed

text \<open>
  C10 as stated fails where a number of the occurrence does not fit \<open>int\<close>: the
  pattern matches, and \<open>Atoi\<close> rejects \<open>2 ^ 63\<close>.
\<close>

theorem parseTier_overflow_counterexample:
  "parseTier ''db-custom-9223372036854775808-1'' = Inl InvalidTierNumbers"
  by (simp add: string_eval)

lemma parseTier_example: "parseTier ''xdb-custom-1-3840y'' = Inr (1, 3840)"
  by (simp add: string_eval)

lemma tier_occurrence_match:
  assumes "tier_occurrence t d1 d2"
  shows "\<exists>q. t = ''db-custom-'' @ d1 @ ''-'' @ d2 @ q \<and>
    tier_match_here t =
      Some [''db-custom-'' @ d1 @ ''-'' @ d2 @ takeWhile is_digit q, d1, d2 @ takeWhile is_digit q]"
proof -
  from assms obtain q where t: "t = ''db-custom-'' @ d1 @ ''-'' @ d2 @ q"
    and d: "d1 \<noteq> []" "d2 \<noteq> []" "list_all is_digit d1" "list_all is_digit d2"
    unfolding tier_occurrence_def by blast
  define e where "e = d2 @ takeWhile is_digit q"
  define q' where "q' = dropWhile is_digit q"
  have e: "e \<noteq> []" "list_all is_digit e"
    using d unfolding e_def list_all_iff by (auto dest: set_takeWhileD)
  have q': "q' = [] \<or> \<not> is_digit (hd q')"
    unfolding q'_def using hd_dropWhile [of is_digit q] by auto
  have "t = ''db-custom-'' @ d1 @ ''-'' @ e @ q'"
    unfolding t e_def q'_def by simp
  then have "tier_match_here t = Some [''db-custom-'' @ d1 @ ''-'' @ e, d1, e]"
    using tier_match_here_occurrence [OF d(1) e(1) d(3) e(2) q'] by simp
  then show ?thesis
    using t unfolding e_def by auto
qed

lemma tier_match_here_None:
  assumes "\<forall>a b. \<not> tier_occurrence s a b"
  shows "tier_match_here s = None"
proof (cases "tier_match_here s")
  case None
  then show ?thesis .
next
  case (Some m)
  from tier_match_here_Some [OF this] obtain a b where "tier_occurrence s a b"
    unfolding tier_occurrence_def by blast
  with assms show ?thesis
    by blast
qed

text \<open>
  C10, amended: the match is not anchored. On any string that contains
  \<open>db-custom-<digits>-<digits>\<close> anywhere, \<open>parseTier\<close> finds a match and never
  reports an invalid format. It returns the numbers of the first occurrence, each group
  of digits taken as long as possible, when both numbers fit \<open>int\<close>, and fails with
  the error for invalid numbers otherwise. So leading and trailing text is accepted:
  \<open>xdb-custom-1-3840y\<close> parses to \<open>(1, 3840)\<close>.
\<close>

theorem parseTier_unanchored:
  "tier_occurrence t d1 d2 \<Longrightarrow>
     parseTier (pre @ t) \<noteq> Inl InvalidTierFormat
     \<and> ((\<forall>j<length pre. \<forall>a b. \<not> tier_occurrence (drop j (pre @ t)) a b)
          \<and> (\<forall>c. \<not> tier_occurrence t d1 (d2 @ [c]))
        \<longrightarrow> parseTier (pre @ t) =
             (if digits_value d1 \<le> int64_max \<and> digits_value d2 \<le> int64_max
              then Inr (digits_value d1, digits_value d2) else Inl InvalidTierNumbers))
     \<and> parseTier ''xdb-custom-1-3840y'' = Inr (1, 3840)"
proof -
  assume occ: "tier_occurrence t d1 d2"
  then have d: "d1 \<noteq> []" "d2 \<noteq> []" "list_all is_digit d1" "list_all is_digit d2"
    unfolding tier_occurrence_def by blast+
  from tier_occurrence_match [OF occ] obtain q where t: "t = ''db-custom-'' @ d1 @ ''-'' @ d2 @ q"
    and here: "tier_match_here t =
      Some [''db-custom-'' @ d1 @ ''-'' @ d2 @ takeWhile is_digit q, d1, d2 @ takeWhile is_digit q]"
    by blast
  have found: "parseTier (pre @ t) \<noteq> Inl InvalidTierFormat"
  proof -
    from FindStringSubmatch_some [OF here, of pre] obtain j m
      where m: "tier_match_here (drop j (pre @ t)) = Some m" "FindStringSubmatch (pre @ t) = m"
      by blast
    from tier_match_here_Some [OF m(1)] obtain a b w
      where "m = [w, a, b]" "a \<noteq> []" "b \<noteq> []" "list_all is_digit a" "list_all is_digit b"
      by blast
    with m(2) show ?thesis
      by (simp add: parseTier_of_match)
  qed
  have first: "parseTier (pre @ t) =
      (if digits_value d1 \<le> int64_max \<and> digits_value d2 \<le> int64_max
       then Inr (digits_value d1, digits_value d2) else Inl InvalidTierNumbers)"
    if left: "\<forall>j<length pre. \<forall>a b. \<not> tier_occurrence (drop j (pre @ t)) a b"
      and longest: "\<forall>c. \<not> tier_occurrence t d1 (d2 @ [c])"
  proof -
    have "takeWhile is_digit q = []"
    proof (cases q)
      case Nil
      then show ?thesis by simp
    next
      case (Cons c q')
      have "\<not> is_digit c"
      proof
        assume "is_digit c"
        then have "tier_occurrence t d1 (d2 @ [c])"
          using d t Cons unfolding tier_occurrence_def by auto
        with longest show False
          by blast
      qed
      with Cons show ?thesis
        by simp
    qed
    with here have "tier_match_here t = Some [''db-custom-'' @ d1 @ ''-'' @ d2, d1, d2]"
      by simp
    moreover have "\<forall>j<length pre. tier_match_here (drop j (pre @ t)) = None"
      using left tier_match_here_None by blast
    ultimately have "FindStringSubmatch (pre @ t) = [''db-custom-'' @ d1 @ ''-'' @ d2, d1, d2]"
      by (intro FindStringSubmatch_leftmost)
    then show ?thesis
      using d by (rule parseTier_of_match)
  qed
  show ?thesis
    using found first parseTier_example by blast
qed

theorem parseTier_unanchored_witness:
  "tier_occurrence ''db-custom-1-3840y'' ''1'' ''3840''
   \<and> parseTier (''x'' @ ''db-custom-1-3840y'') = Inr (1, 3840)
   \<and> parseTier (''x'' @ ''db-custom-1-3840y'') \<noteq> Inl InvalidTierFormat"
proof -
  have occ: "tier_occurrence ''db-custom-1-3840y'' ''1'' ''3840''"
    by (simp add: tier_occurrence_def is_digit_def)
  have left: "\<forall>j<length ''x''. \<forall>a b. \<not> tier_occurrence (drop j (''x'' @ ''db-custom-1-3840y'')) a b"
    by (simp add: tier_occurrence_def)
  have longest: "\<forall>c. \<not> tier_occurrence ''db-custom-1-3840y'' ''1'' (''3840'' @ [c])"
    by (auto simp: tier_occurrence_def is_digit_def)
  have v: "digits_value ''1'' = 1" "digits_value ''3840'' = 3840"
    by (simp_all add: digits_value_def digit_val_def)
  have "parseTier (''x'' @ ''db-custom-1-3840y'') \<noteq> Inl InvalidTierFormat
     \<and> parseTier (''x'' @ ''db-custom-1-3840y'') =
        (if digits_value ''1'' \<le> int64_max \<and> digits_value ''3840'' \<le> int64_max
         then Inr (digits_value ''1'', digits_value ''3840'') else Inl InvalidTierNumbers)"
    using parseTier_unanchored [OF occ, of "''x''"] left longest by blast
  then show ?thesis
    using occ unfolding v by (simp add: int64_max_def)
qed

section \<open>Properties of the memory bump\<close>

lemma bump_ramMB_exact:
  assumes "0 \<le> c" "13 * c < 2 ^ 53"
  shows "go_int (bump_ramMB c) = max 3840 (6656 * c)"
proof -
  have c: "\<bar>c\<bar> < 2 ^ 53" using assms by simp
  have m: "\<bar>c * 13\<bar> < 2 ^ 53" using assms by simp
  have "f64_mul (f64_mul (f64_of_int c) f64_6_5) f64_1024 = Dyadic (c * 13) 9"
    using m by (simp add: f64_of_int_small [OF c] f64_mul_small f64_6_5_def f64_1024_def)
  moreover have range: "6656 * c \<le> int64_max" "int64_min \<le> 6656 * c"
    using assms by (simp_all add: int64_max_def int64_min_def)
  ultimately have "go_int (f64_mul (f64_mul (f64_of_int c) f64_6_5) f64_1024) = 6656 * c"
    by (simp add: go_int_def int64_of_def f64_trunc_def)
  moreover have "round_down_256 (6656 * c) = 6656 * c"
    using assms(1) range(1) by (simp add: round_down_256_small)
  ultimately have ram: "bump_ramMB c = floor_3840 (f64_of_int (6656 * c))"
    by (simp add: bump_ramMB_def)
  have "512 dvd 6656 * c"
    by simp
  moreover have "6656 * c < 2 ^ 62"
    using assms by simp
  ultimately obtain q k where qk: "f64_of_int (6656 * c) = Dyadic q (int k)" "q * 2 ^ k = 6656 * c"
    using f64_of_int_exact [of "6656 * c"] assms(1) by auto
  have less: "f64_less (Dyadic q (int k)) f64_3840 \<longleftrightarrow> 6656 * c < 3840"
    using qk(2) by (simp add: f64_less_def scaled_mant_def f64_3840_def)
  have "go_int (Dyadic q (int k)) = 6656 * c"
    using qk(2) range by (simp add: go_int_def int64_of_def f64_trunc_def)
  moreover have "go_int f64_3840 = 3840"
    by (simp add: go_int_def int64_of_def f64_trunc_def f64_3840_def int64_min_def int64_max_def)
  ultimately show ?thesis
    using less by (simp add: ram qk(1) floor_3840_def max_def)
qed

lemma bumpMemTier_steps:
  "bumpMemTier c r = (c, go_int (bump_ramMB c), bump_relation_of (go_int (bump_ramMB c)) r)"
  by (simp only: bumpMemTier_def bump_ramMB_def floor_3840_def round_down_256_def
      bump_relation_of_def Let_def)

lemma spec_bump_max_eq: "0 \<le> c \<Longrightarrow> spec_bump_max c = max 3840 (6656 * c)"
  by (simp add: spec_bump_max_def spec_max_ram_eq)

text \<open>
  C7, amended: for every parsed tier \<open>(c, r)\<close> with \<open>13 * c < 2 ^ 53\<close>, the
  bump-memory operation keeps the vCPU count \<open>c\<close>, computes as maximum the
  truncation of \<open>6.5 * c * 1024\<close> rounded down to a multiple of 256 and floored at
  3840, and reports \<open>AlreadyMax\<close> when the maximum equals \<open>r\<close>,
  \<open>AlreadyExceedsMax\<close> when it is below \<open>r\<close> and \<open>Bumped\<close> when it is above. In
  particular the tier \<open>(4, 3840)\<close> has the maximum 26624 and is bumped.
\<close>

theorem bumpMem_in_range:
  "(0 \<le> c \<and> 13 * c < 2 ^ 53 \<longrightarrow>
      bumpMemTier c r =
        (c, spec_bump_max c,
         if spec_bump_max c = r then AlreadyMax
         else if spec_bump_max c < r then AlreadyExceedsMax
         else Bumped))
   \<and> (parseTier s = Inr (c, r) \<and> 13 * c < 2 ^ 53 \<longrightarrow>
      bumpMem s =
        Inr (c, spec_bump_max c,
             if spec_bump_max c = r then AlreadyMax
             else if spec_bump_max c < r then AlreadyExceedsMax
             else Bumped))
   \<and> bumpMemTier 4 3840 = (4, 26624, Bumped)"
proof -
  have tier: "bumpMemTier c r =
      (c, spec_bump_max c,
       if spec_bump_max c = r then AlreadyMax
       else if spec_bump_max c < r then AlreadyExceedsMax
       else Bumped)"
    if "0 \<le> c" "13 * c < 2 ^ 53" for c r
    using that
    by (simp add: bumpMemTier_steps bump_ramMB_exact spec_bump_max_eq bump_relation_of_def)
  have "bumpMem s =
      Inr (c, spec_bump_max c,
           if spec_bump_max c = r then AlreadyMax
           else if spec_bump_max c < r then AlreadyExceedsMax
           else Bumped)"
    if p: "parseTier s = Inr (c, r)" and b: "13 * c < 2 ^ 53"
    using parseTier_nonneg [OF p] tier [OF _ b, of r] p by (simp add: bumpMem_def)
  moreover have "bumpMemTier 4 3840 = (4, 26624, Bumped)"
    by (simp add: tier spec_bump_max_eq)
  ultimately show ?thesis
    using tier by blast
qed

theorem bumpMem_in_range_witness:
  "bumpMem ''db-custom-4-3840'' = Inr (4, 26624, Bumped)
   \<and> bumpMemTier 4 26624 = (4, 26624, AlreadyMax)
   \<and> bumpMemTier 4 30000 = (4, 26624, AlreadyExceedsMax)
   \<and> spec_bump_max 4 = 26624"
proof -
  have p: "parseTier ''db-custom-4-3840'' = Inr (4, 3840)"
    by (simp add: string_eval)
  have s: "spec_bump_max 4 = 26624"
    by (simp add: spec_bump_max_eq)
  have b: "(0::int) \<le> 4 \<and> (13::int) * 4 < 2 ^ 53"
    by simp
  have "bumpMem ''db-custom-4-3840'' = Inr (4, 26624, Bumped)"
    using bumpMem_in_range [of 4 3840 "''db-custom-4-3840''"] p b unfolding s by simp
  moreover have "bumpMemTier 4 26624 = (4, 26624, AlreadyMax)"
    using bumpMem_in_range [of 4 26624 "[]"] b unfolding s by simp
  moreover have "bumpMemTier 4 30000 = (4, 26624, AlreadyExceedsMax)"
    using bumpMem_in_range [of 4 30000 "[]"] b unfolding s by simp
  ultimately show ?thesis
    using s by simp
qed

text \<open>
  C7 as stated fails for large vCPU counts: \<open>float64(c) * 6.5\<close> is rounded to 53
  bits, so at \<open>c = 2 ^ 50 + 1\<close> the program's maximum is 512 below the truncation of
  \<open>6.5 * c * 1024\<close>.
\<close>

theorem bumpMem_rounding_counterexample:
  "bumpMem ''db-custom-1125899906842625-3840'' =
     Inr (1125899906842625, 7493989779944511488, Bumped)
   \<and> spec_bump_max 1125899906842625 = 7493989779944512000
   \<and> fst (snd (bumpMemTier 1125899906842625 3840)) \<noteq> spec_bump_max 1125899906842625"
proof -
  have "parseTier ''db-custom-1125899906842625-3840'' = Inr (1125899906842625, 3840)"
    by (simp add: string_eval)
  moreover have "go_int (bump_ramMB 1125899906842625) = 7493989779944511488"
    by (simp add: bump_ramMB_def floor_3840_def round_down_256_def go_mul_def go_quo_def
        wrap64_def f64_eval)
  moreover have "spec_bump_max 1125899906842625 = 7493989779944512000"
    by (simp add: spec_bump_max_eq)
  ultimately show ?thesis
    by (simp add: bumpMem_def bumpMemTier_steps bump_relation_of_def)
qed

section \<open>Properties of the memory parser\<close>

lemma char_of_decimal:
  "char_of (48::nat) = CHR ''0''" "char_of (49::nat) = CHR ''1''" "char_of (50::nat) = CHR ''2''"
  "char_of (51::nat) = CHR ''3''" "char_of (52::nat) = CHR ''4''" "char_of (53::nat) = CHR ''5''"
  "char_of (54::nat) = CHR ''6''" "char_of (55::nat) = CHR ''7''" "char_of (56::nat) = CHR ''8''"
  "char_of (57::nat) = CHR ''9''"
  by (simp_all add: char_of_def bit_0)

lemma is_digit_iff: "is_digit c \<longleftrightarrow> c \<in> set decimalDigits"
proof
  assume "is_digit c"
  then have "(48::nat) \<le> of_char c" "of_char c \<le> (57::nat)"
    by (simp_all add: is_digit_def)
  then have "\<exists>n::nat. of_char c = n \<and> (n = 48 \<or> n = 49 \<or> n = 50 \<or> n = 51 \<or> n = 52 \<or> n = 53
      \<or> n = 54 \<or> n = 55 \<or> n = 56 \<or> n = 57)"
    by presburger
  then obtain n :: nat where n: "of_char c = n"
    and cases: "n = 48 \<or> n = 49 \<or> n = 50 \<or> n = 51 \<or> n = 52 \<or> n = 53
      \<or> n = 54 \<or> n = 55 \<or> n = 56 \<or> n = 57"
    by blast
  have "c = char_of n"
    unfolding n [symmetric] by simp
  with cases show "c \<in> set decimalDigits"
    unfolding decimalDigits_def using char_of_decimal by auto
next
  assume "c \<in> set decimalDigits"
  then show "is_digit c"
    by (auto simp: decimalDigits_def is_digit_def)
qed

lemma floatToken_digits:
  assumes "s \<noteq> []" "list_all is_digit s"
  shows "floatToken s = (s, [])"
proof -
  obtain c cs where s: "s = c # cs"
    using assms(1) by (cases s) auto
  have c: "c \<in> set decimalDigits" and cs: "\<forall>x\<in>set cs. x \<in> set decimalDigits"
    using assms(2) by (simp_all add: s is_digit_iff list_all_iff)
  have c_not: "c \<notin> set ''nN''" "c \<notin> set ''+-''" "c \<notin> set ''iI''"
    using c by (auto simp: decimalDigits_def)
  have nan: "accept_seq [''nN'', ''aA'', ''nN''] ([], s) = (False, ([], s))"
    using c_not by (simp add: accept_seq_def accept_def s)
  have sign: "accept ''+-'' ([], s) = (False, ([], s))"
    using c_not by (simp add: accept_def s)
  have inf: "accept_seq [''iI'', ''nN'', ''fF''] ([], s) = (False, ([], s))"
    using c_not by (simp add: accept_seq_def accept_def s)
  have "\<exists>tok rest. accept_seq [''0'', ''xX''] ([], s) = (False, (tok, rest)) \<and> tok @ rest = s
      \<and> (\<forall>x\<in>set rest. x \<in> set decimalDigits)"
  proof (cases "c = CHR ''0''")
    case True
    have "accept ''xX'' (''0'', cs) = (False, (''0'', cs))"
    proof (cases cs)
      case Nil
      then show ?thesis by (simp add: accept_def)
    next
      case (Cons d ds)
      with cs have "d \<in> set decimalDigits"
        by simp
      then have "d \<notin> set ''xX''"
        by (auto simp: decimalDigits_def)
      with Cons show ?thesis
        by (simp add: accept_def)
    qed
    then have "accept_seq [''0'', ''xX''] ([], s) = (False, (''0'', cs))"
      using True by (simp add: accept_seq_def accept_def s)
    then show ?thesis
      using True cs s by simp
  next
    case False
    then have "accept_seq [''0'', ''xX''] ([], s) = (False, ([], s))"
      by (simp add: accept_seq_def accept_def s)
    then show ?thesis
      using c cs s by simp
  qed
  then obtain tok rest where hex: "accept_seq [''0'', ''xX''] ([], s) = (False, (tok, rest))"
    and split: "tok @ rest = s" and rest: "\<forall>x\<in>set rest. x \<in> set decimalDigits"
    by blast
  have "\<forall>x\<in>set rest. x \<in> set (decimalDigits @ ''_'')"
    using rest by simp
  then have "takeWhile (\<lambda>c. c \<in> set (decimalDigits @ ''_'')) rest = rest"
    "dropWhile (\<lambda>c. c \<in> set (decimalDigits @ ''_'')) rest = []"
    by (simp_all only: takeWhile_eq_all_conv dropWhile_eq_Nil_conv)
  then have "accept_all (decimalDigits @ ''_'') (tok, rest) = (s, [])"
    using split by (simp only: accept_all_def fst_conv snd_conv)
  then have "scan_number (decimalDigits @ ''_'') ''eEpP'' (tok, rest) = (s, [])"
    by (simp add: scan_number_def scan_exponent_def accept_def)
  then show ?thesis
    by (simp add: floatToken_def nan sign inf hex)
qed

lemma SkipSpace_digits:
  assumes "s \<noteq> []" "list_all is_digit s"
  shows "SkipSpace s = Inr s"
proof -
  obtain c cs where s: "s = c # cs"
    using assms(1) by (cases s) auto
  then have "is_digit c"
    using assms(2) by simp
  then have "c \<noteq> CHR 0x0D" "c \<noteq> CHR 0x0A" "\<not> isSpace c"
    by (auto simp: is_digit_def isSpace_def)
  then show ?thesis
    by (simp add: s)
qed

text \<open>
  C3, at the input the claim names: a bare number without a unit does not parse. The
  operand \<open>%s\<close> finds the text exhausted, \<open>Sscanf\<close> returns the error \<open>EOF\<close>
  with one operand stored, and \<open>parseMem\<close> reports an invalid format, for \<open>6144\<close>
  as for every nonempty string of decimal digits.
\<close>

theorem parseMem_bare_number:
  "(s \<noteq> [] \<and> list_all is_digit s \<longrightarrow> parseMem convertFloat s = Inl InvalidMemoryFormat)
   \<and> parseMem convertFloat ''6144'' = Inl InvalidMemoryFormat"
proof -
  have digits: "parseMem convertFloat s = Inl InvalidMemoryFormat"
    if ne: "s \<noteq> []" and dg: "list_all is_digit s" for s
  proof -
    obtain c cs where s: "s = c # cs"
      using ne by (cases s) auto
    have "Sscanf_f_s convertFloat s =
        (case convertFloat s of
           None \<Rightarrow> (0, Some BadNumber, Dyadic 0 0, [])
         | Some v \<Rightarrow> (1, Some EOF, v, []))"
      using SkipSpace_digits [OF ne dg] floatToken_digits [OF ne dg]
      by (simp add: Sscanf_f_s_def scan_string_def s split: option.splits)
    then show ?thesis
      using ne by (simp add: parseMem_def split: option.splits)
  qed
  have "list_all is_digit ''6144''"
    by (simp add: is_digit_def)
  then have "parseMem convertFloat ''6144'' = Inl InvalidMemoryFormat"
    by (intro digits) simp_all
  with digits show ?thesis
    by blast
qed

theorem parseMem_bare_number_witness:
  "list_all is_digit ''6144''
   \<and> parseMem (\<lambda>tok. Some (Dyadic (digits_value tok) 0)) ''6144'' = Inl InvalidMemoryFormat"
proof -
  have "''6144'' \<noteq> [] \<and> list_all is_digit ''6144''"
    by (simp add: is_digit_def)
  then show ?thesis
    using parseMem_bare_number [of "''6144''" "\<lambda>tok. Some (Dyadic (digits_value tok) 0)"]
    by blast
qed

text \<open>
  With a unit the same numbers parse, and a unit other than the four letters is an
  error. The scan ends with the unit: what follows a blank after it is not read.
\<close>

lemma parseMem_with_unit:
  "parseMem convertFloat ''6144M'' =
     (case convertFloat ''6144'' of None \<Rightarrow> Inl InvalidMemoryFormat | Some v \<Rightarrow> Inr v)"
  "parseMem convertFloat ''6G'' =
     (case convertFloat ''6'' of None \<Rightarrow> Inl InvalidMemoryFormat
      | Some v \<Rightarrow> Inr (f64_mul v f64_1024))"
  "parseMem convertFloat ''6GB'' =
     (case convertFloat ''6'' of None \<Rightarrow> Inl InvalidMemoryFormat
      | Some v \<Rightarrow> Inl (InvalidUnit ''GB''))"
  "parseMem convertFloat ''6G x'' =
     (case convertFloat ''6'' of None \<Rightarrow> Inl InvalidMemoryFormat
      | Some v \<Rightarrow> Inr (f64_mul v f64_1024))"
  by (simp_all add: parseMem_def Sscanf_f_s_def scan_string_def floatToken_def scan_number_def
      scan_exponent_def accept_seq_def accept_all_def accept_def isSpace_def decimalDigits_def
      hexadecimalDigits_def split: option.splits)

end
